theory Spec2Isabelle
  imports Main
begin

section \<open>Python values and primitives used by the module\<close>

text \<open>
  Byte strings and text strings are both modelled as \<open>string\<close> (a list of 8-bit
  characters); of the characters of a text string the code only looks at tab, newline,
  carriage return and space. Exceptions are values: every function that can raise returns
  \<open>py_error + result\<close> with \<open>Inl\<close> for the exception.
\<close>

datatype py_error =
    IndexError
  | ValueError string
  | NotFoundError string
  | FileNotFoundError string

abbreviation NL :: char where "NL \<equiv> CHR 0x0A"
abbreviation TAB :: char where "TAB \<equiv> CHR 0x09"
abbreviation SPC :: char where "SPC \<equiv> CHR 0x20"
abbreviation CR :: char where "CR \<equiv> CHR 0x0D"

text \<open>Whitespace of \<open>bytes.strip()\<close> and \<open>bytes.split()\<close>: space, tab, newline,
  carriage return, vertical tab, form feed.\<close>

definition is_space :: "char \<Rightarrow> bool" where
  "is_space c = (c \<in> set [SPC, TAB, NL, CR, CHR 0x0B, CHR 0x0C])"

definition py_strip :: "string \<Rightarrow> string" where
  "py_strip s = rev (dropWhile is_space (rev (dropWhile is_space s)))"

text \<open>\<open>s.split()\<close> without a separator: maximal runs of non-whitespace; \<open>word\<close> is
  the run being scanned.\<close>

fun split_ws :: "string \<Rightarrow> string \<Rightarrow> string list" where
  "split_ws word [] = (if word = [] then [] else [word])"
| "split_ws word (c # cs) =
     (if is_space c then (if word = [] then split_ws [] cs else word # split_ws [] cs)
      else split_ws (word @ [c]) cs)"

definition py_split :: "string \<Rightarrow> string list" where
  "py_split s = split_ws [] s"

text \<open>\<open>s.split(sep)\<close> with a one-character separator: every separator cuts, so the
  result has one more field than there are separators (\<open>''.split('\t') == ['']\<close>).\<close>

fun split_on :: "char \<Rightarrow> string \<Rightarrow> string list" where
  "split_on sep [] = [[]]"
| "split_on sep (c # cs) =
     (if c = sep then [] # split_on sep cs
      else (case split_on sep cs of [] \<Rightarrow> [[c]] | f # fs \<Rightarrow> (c # f) # fs))"

text \<open>Iterating over a file, \<open>readline\<close> and \<open>readlines\<close>: every line keeps its
  terminating newline; a last line without one is returned as it is.\<close>

fun readlines :: "string \<Rightarrow> string list" where
  "readlines [] = []"
| "readlines (c # cs) =
     (if c = NL then [c] # readlines cs
      else (case readlines cs of [] \<Rightarrow> [[c]] | l # ls \<Rightarrow> (c # l) # ls))"

text \<open>Reading a file opened in text mode translates \<open>\r\n\<close> and a lone \<open>\r\<close> to
  \<open>\n\<close> (universal newlines).\<close>

fun universal_newlines :: "string \<Rightarrow> string" where
  "universal_newlines [] = []"
| "universal_newlines [c] = (if c = CR then [NL] else [c])"
| "universal_newlines (c # d # cs) =
     (if c = CR \<and> d = NL then NL # universal_newlines cs
      else if c = CR then NL # universal_newlines (d # cs)
      else c # universal_newlines (d # cs))"

text \<open>The slice \<open>xs[:n]\<close>: a negative \<open>n\<close> counts from the end.\<close>

definition py_slice_to :: "int \<Rightarrow> 'a list \<Rightarrow> 'a list" where
  "py_slice_to n xs =
     (if 0 \<le> n then take (nat n) xs else take (length xs - nat (- n)) xs)"

text \<open>\<open>str(i)\<close> for an integer.\<close>

definition digit_char :: "nat \<Rightarrow> char" where
  "digit_char n = ''0123456789'' ! (n mod 10)"

function str_nat :: "nat \<Rightarrow> string" where
  "str_nat n = (if n < 10 then [digit_char n] else str_nat (n div 10) @ [digit_char n])"
  by pat_completeness auto
termination
  by (relation "measure id") auto

definition py_str :: "int \<Rightarrow> string" where
  "py_str i = (if i < 0 then CHR ''-'' # str_nat (nat (- i)) else str_nat (nat i))"

fun join_with :: "string \<Rightarrow> string list \<Rightarrow> string" where
  "join_with sep [] = []"
| "join_with sep [x] = x"
| "join_with sep (x # y # ys) = x @ sep @ join_with sep (y # ys)"

text \<open>A dictionary keeps its keys in insertion order (Python 3.7 and later): an
  association list with distinct keys. Assigning to an existing key keeps its place.\<close>

type_synonym ('k, 'v) dict = "('k \<times> 'v) list"

fun dict_set :: "'k \<Rightarrow> 'v \<Rightarrow> ('k, 'v) dict \<Rightarrow> ('k, 'v) dict" where
  "dict_set k v [] = [(k, v)]"
| "dict_set k v (p # d) = (if fst p = k then (k, v) # d else p # dict_set k v d)"

definition dict_get :: "('k, 'v) dict \<Rightarrow> 'k \<Rightarrow> 'v \<Rightarrow> 'v" where
  "dict_get d k dflt = (case map_of d k of Some v \<Rightarrow> v | None \<Rightarrow> dflt)"

definition py_dict :: "('k \<times> 'v) list \<Rightarrow> ('k, 'v) dict" where
  "py_dict pairs = foldl (\<lambda>d (k, v). dict_set k v d) [] pairs"

text \<open>\<open>sorted(xs, key=key, reverse=True)\<close>: descending by key, and stable (elements
  with equal keys keep their order in \<open>xs\<close>).\<close>

definition py_sorted_reverse :: "('a \<Rightarrow> int) \<Rightarrow> 'a list \<Rightarrow> 'a list" where
  "py_sorted_reverse key xs = sort_key (\<lambda>x. - key x) xs"

subsection \<open>The file system\<close>

text \<open>
  The world is the set of files with their contents, and the list of files opened for
  reading, opened for writing or removed, in program order. Opening a file for writing
  with the built-in \<open>open\<close> creates it.
\<close>

datatype io_event = Read string | Write string | Remove string

record world =
  files :: "string \<rightharpoonup> string"
  io_log :: "io_event list"

definition file_exists :: "world \<Rightarrow> string \<Rightarrow> bool" where
  "file_exists w p = (files w p \<noteq> None)"

definition gfile_read :: "world \<Rightarrow> string \<Rightarrow> py_error + (string \<times> world)" where
  "gfile_read w p =
     (case files w p of
        None \<Rightarrow> Inl (NotFoundError p)
      | Some c \<Rightarrow> Inr (c, w\<lparr>io_log := io_log w @ [Read p]\<rparr>))"

definition open_read :: "world \<Rightarrow> string \<Rightarrow> py_error + (string \<times> world)" where
  "open_read w p =
     (case files w p of
        None \<Rightarrow> Inl (FileNotFoundError p)
      | Some c \<Rightarrow> Inr (universal_newlines c, w\<lparr>io_log := io_log w @ [Read p]\<rparr>))"

definition write_file :: "world \<Rightarrow> string \<Rightarrow> string \<Rightarrow> world" where
  "write_file w p c = w\<lparr>files := (files w)(p \<mapsto> c), io_log := io_log w @ [Write p]\<rparr>"

text \<open>\<open>gfile.GFile(p, mode="w")\<close> opens the file at its first \<open>write\<close>, not when
  the object is made: \<open>chunks\<close> are the strings written, in order, and with none of
  them no file is created.\<close>

definition gfile_write :: "world \<Rightarrow> string \<Rightarrow> string list \<Rightarrow> world" where
  "gfile_write w p chunks = (if chunks = [] then w else write_file w p (concat chunks))"

definition remove_file :: "world \<Rightarrow> string \<Rightarrow> py_error + world" where
  "remove_file w p =
     (case files w p of
        None \<Rightarrow> Inl (FileNotFoundError p)
      | Some c \<Rightarrow> Inr (w\<lparr>files := (files w)(p := None), io_log := io_log w @ [Remove p]\<rparr>))"

section \<open>Tokenizer\<close>

text \<open>The punctuation class of \<open>_WORD_SPLIT\<close>: one of \<open>. , ! ? " ' : ; ) (\<close>.\<close>

definition is_punct :: "char \<Rightarrow> bool" where
  "is_punct c = (c \<in> set [CHR ''.'', CHR '','', CHR ''!'', CHR ''?'', CHR 0x22, CHR 0x27,
                          CHR '':'', CHR '';'', CHR '')'', CHR ''('']) "

text \<open>\<open>_WORD_SPLIT.split(fragment)\<close>: the pattern is a capturing group, so the pieces
  between matches and the matched characters are all returned, empty pieces included.\<close>

fun word_split :: "string \<Rightarrow> string \<Rightarrow> string list" where
  "word_split piece [] = [piece]"
| "word_split piece (c # cs) =
     (if is_punct c then piece # [c] # word_split [] cs
      else word_split (piece @ [c]) cs)"

definition basic_tokenizer :: "string \<Rightarrow> string list" where
  "basic_tokenizer sentence =
     (let words = concat (map (word_split []) (py_split (py_strip sentence)))
      in filter (\<lambda>w. w \<noteq> []) words)"

text \<open>\<open>_DIGIT_RE.sub(b"0", w)\<close>: every ASCII digit becomes \<open>0\<close>.\<close>

definition is_digit :: "char \<Rightarrow> bool" where
  "is_digit c = (c \<in> set ''0123456789'')"

definition digit_sub :: "string \<Rightarrow> string" where
  "digit_sub w = map (\<lambda>c. if is_digit c then CHR ''0'' else c) w"

text \<open>The optional \<open>tokenizer\<close> argument: \<open>None\<close> selects \<open>basic_tokenizer\<close>.\<close>

type_synonym tokenizer = "string \<Rightarrow> string list"

definition tokenize :: "tokenizer option \<Rightarrow> string \<Rightarrow> string list" where
  "tokenize tokenizer line =
     (case tokenizer of Some f \<Rightarrow> f line | None \<Rightarrow> basic_tokenizer line)"

section \<open>Vocabulary\<close>

definition PAD :: string where "PAD = ''_PAD''"
definition GO :: string where "GO = ''_GO''"
definition EOS :: string where "EOS = ''_EOS''"
definition UNK :: string where "UNK = ''_UNK''"

definition START_VOCAB :: "string list" where
  "START_VOCAB = [PAD, GO, EOS, UNK]"

definition PAD_ID :: int where "PAD_ID = 0"
definition GO_ID :: int where "GO_ID = 1"
definition EOS_ID :: int where "EOS_ID = 2"
definition UNK_ID :: int where "UNK_ID = 3"

text \<open>The body of the counting loop: \<open>vocab[word] += 1\<close> or \<open>vocab[word] = 1\<close>.\<close>

definition count_word :: "(string, nat) dict \<Rightarrow> string \<Rightarrow> (string, nat) dict" where
  "count_word vocab word =
     (case map_of vocab word of
        Some n \<Rightarrow> dict_set word (n + 1) vocab
      | None \<Rightarrow> dict_set word 1 vocab)"

text \<open>All words of the data file in the order the two nested loops visit them.\<close>

definition corpus_words :: "tokenizer option \<Rightarrow> bool \<Rightarrow> string \<Rightarrow> string list" where
  "corpus_words tokenizer normalize_digits data =
     concat (map (\<lambda>line. map (\<lambda>w. if normalize_digits then digit_sub w else w)
                               (tokenize tokenizer line))
                 (readlines data))"

definition count_vocab :: "string list \<Rightarrow> (string, nat) dict" where
  "count_vocab ws = foldl count_word [] ws"

text \<open>\<open>sorted(vocab, key=vocab.get, reverse=True)\<close>: the keys of the dictionary, in
  the order of the dictionary, sorted by their count.\<close>

definition sorted_vocab :: "(string, nat) dict \<Rightarrow> string list" where
  "sorted_vocab vocab =
     py_sorted_reverse (\<lambda>w. case map_of vocab w of Some n \<Rightarrow> int n | None \<Rightarrow> 0)
                       (map fst vocab)"

definition vocab_list :: "int \<Rightarrow> string list \<Rightarrow> string list" where
  "vocab_list max_vocabulary_size ws =
     (let vl = START_VOCAB @ sorted_vocab (count_vocab ws)
      in if int (length vl) > max_vocabulary_size
         then py_slice_to max_vocabulary_size vl else vl)"

definition write_lines :: "string list \<Rightarrow> string" where
  "write_lines ts = concat (map (\<lambda>t. t @ [NL]) ts)"

definition create_vocabulary ::
  "world \<Rightarrow> string \<Rightarrow> string \<Rightarrow> int \<Rightarrow> tokenizer option \<Rightarrow> bool \<Rightarrow> py_error + world" where
  "create_vocabulary w vocabulary_path data_path max_vocabulary_size tokenizer normalize_digits =
     (if \<not> file_exists w vocabulary_path then
        (case gfile_read w data_path of
           Inl e \<Rightarrow> Inl e
         | Inr (data, w1) \<Rightarrow>
             Inr (gfile_write w1 vocabulary_path
                    (map (\<lambda>w. w @ [NL])
                         (vocab_list max_vocabulary_size
                            (corpus_words tokenizer normalize_digits data)))))
      else Inr w)"

text \<open>\<open>[(x, y) for (y, x) in enumerate(rev_vocab)]\<close>\<close>

definition id_pairs :: "string list \<Rightarrow> (string \<times> int) list" where
  "id_pairs rev_vocab = map (\<lambda>(y, x). (x, int y)) (enumerate 0 rev_vocab)"

definition initialize_vocabulary ::
  "world \<Rightarrow> string \<Rightarrow> py_error + (((string, int) dict \<times> string list) \<times> world)" where
  "initialize_vocabulary w vocabulary_path =
     (if file_exists w vocabulary_path then
        (case gfile_read w vocabulary_path of
           Inl e \<Rightarrow> Inl e
         | Inr (content, w1) \<Rightarrow>
             (let rev_vocab = map py_strip (readlines content);
                  vocab = py_dict (id_pairs rev_vocab)
              in Inr ((vocab, rev_vocab), w1)))
      else Inl (ValueError vocabulary_path))"

definition sentence_to_token_ids ::
  "string \<Rightarrow> (string, int) dict \<Rightarrow> tokenizer option \<Rightarrow> bool \<Rightarrow> int list" where
  "sentence_to_token_ids sentence vocabulary tokenizer normalize_digits =
     (let words = (case tokenizer of Some f \<Rightarrow> f sentence | None \<Rightarrow> basic_tokenizer sentence)
      in if \<not> normalize_digits
         then map (\<lambda>w. dict_get vocabulary w UNK_ID) words
         else map (\<lambda>w. dict_get vocabulary (digit_sub w) UNK_ID) words)"

definition data_to_token_ids ::
  "world \<Rightarrow> string \<Rightarrow> string \<Rightarrow> string \<Rightarrow> tokenizer option \<Rightarrow> bool \<Rightarrow> py_error + world" where
  "data_to_token_ids w data_path target_path vocabulary_path tokenizer normalize_digits =
     (if \<not> file_exists w target_path then
        (case initialize_vocabulary w vocabulary_path of
           Inl e \<Rightarrow> Inl e
         | Inr ((vocab, rev_vocab), w1) \<Rightarrow>
             (case gfile_read w1 data_path of
                Inl e \<Rightarrow> Inl e
              | Inr (data, w2) \<Rightarrow>
                  Inr (gfile_write w2 target_path
                         (map (\<lambda>line.
                                 join_with [SPC]
                                   (map py_str (sentence_to_token_ids line vocab tokenizer
                                                  normalize_digits)) @ [NL])
                              (readlines data)))))
      else Inr w)"

section \<open>Dialogue reformatter\<close>

subsection \<open>Removing one-way conversations\<close>

text \<open>The inner loop of \<open>rm_one_way_conv\<close>: \<open>line_split[1]\<close> raises on a line
  without a tab.\<close>

fun collect_persons :: "string list \<Rightarrow> string list \<Rightarrow> py_error + string list" where
  "collect_persons persons [] = Inr persons"
| "collect_persons persons (line # ls) =
     (let line_split = split_on TAB line
      in if length line_split < 2 then Inl IndexError
         else if line_split ! 1 \<notin> set persons
              then collect_persons (persons @ [line_split ! 1]) ls
              else collect_persons persons ls)"

fun rm_loop :: "world \<Rightarrow> string list \<Rightarrow> py_error + world" where
  "rm_loop w [] = Inr w"
| "rm_loop w (tsv # rest) =
     (case open_read w tsv of
        Inl e \<Rightarrow> Inl e
      | Inr (text, w1) \<Rightarrow>
          (case collect_persons [] (readlines text) of
             Inl e \<Rightarrow> Inl e
           | Inr persons \<Rightarrow>
               if length persons < 2
               then (case remove_file w1 tsv of Inl e \<Rightarrow> Inl e | Inr w2 \<Rightarrow> rm_loop w2 rest)
               else rm_loop w1 rest))"

text \<open>\<open>glob.glob(dialogs_path + '/**/*.tsv')\<close>: \<open>tsvs\<close> lists the paths that match
  the pattern, in the order \<open>glob\<close> returns them; those that still exist are found.\<close>

definition glob_tsv :: "world \<Rightarrow> string list \<Rightarrow> string list" where
  "glob_tsv w tsvs = filter (file_exists w) tsvs"

definition rm_one_way_conv :: "world \<Rightarrow> string \<Rightarrow> string list \<Rightarrow> py_error + world" where
  "rm_one_way_conv w dialogs_path tsvs =
     (let marker = dialogs_path @ ''/.one_way_conv_removed''
      in if \<not> file_exists w marker then
           (case rm_loop w (glob_tsv w tsvs) of
              Inl e \<Rightarrow> Inl e
            | Inr w1 \<Rightarrow> Inr (write_file w1 marker []))
         else Inr w)"

subsection \<open>Parsing one conversation\<close>

text \<open>The two temporary files, \<open>str_buffer\<close> and \<open>total_line\<close>: the variables that
  live across the loop over the files.\<close>

record dstate =
  enc_tmp :: string
  dec_tmp :: string
  str_buffer :: string
  total_line :: nat

text \<open>\<open>line[:-1].split('\t')\<close>\<close>

definition row_fields :: "string \<Rightarrow> string list" where
  "row_fields line = split_on TAB (butlast line)"

text \<open>The \<open>while not both_found\<close> loop. It returns \<open>last_person\<close>,
  \<open>file_to_write\<close>, the lines not read yet and the state. At the end of the file
  \<open>readline\<close> returns the empty string, which has one field.\<close>

fun find_second ::
  "nat \<Rightarrow> string \<Rightarrow> string list \<Rightarrow> dstate \<Rightarrow> py_error + (string \<times> nat \<times> string list \<times> dstate)" where
  "find_second row last_person [] st = Inr (last_person, 0, [], st)"
| "find_second row last_person (l # ls) st =
     (let line = row_fields l
      in if length line < 3 then Inr (last_person, 0, ls, st)
         else if line ! 1 \<noteq> last_person then
           (if length line < 4 then Inl IndexError
            else Inr (line ! 1, 1, ls,
                      st\<lparr>enc_tmp := enc_tmp st @ [NL],
                         dec_tmp := dec_tmp st @ line ! 3,
                         total_line := total_line st + 1\<rparr>))
         else if length line \<le> row then Inl IndexError
         else find_second row last_person ls
                (st\<lparr>enc_tmp := enc_tmp st @ [SPC] @ line ! row\<rparr>))"

text \<open>The body of the \<open>for line in tsv_file\<close> loop, on \<open>last_person\<close>,
  \<open>file_to_write\<close> and the state.\<close>

fun main_step :: "string \<times> nat \<times> dstate \<Rightarrow> string \<Rightarrow> string \<times> nat \<times> dstate" where
  "main_step (last_person, file_to_write, st) l =
     (let line_split = row_fields l
      in if length line_split > 3 then
           (if line_split ! 1 \<noteq> last_person then
              (let file_to_write' = (file_to_write + 1) mod 2
               in if file_to_write' = 0
                  then (line_split ! 1, file_to_write',
                        st\<lparr>dec_tmp := dec_tmp st @ [NL], str_buffer := line_split ! 3\<rparr>)
                  else (line_split ! 1, file_to_write',
                        st\<lparr>enc_tmp := enc_tmp st @ (str_buffer st @ [NL]),
                           dec_tmp := dec_tmp st @ line_split ! 3,
                           str_buffer := str_buffer st @ [NL],
                           total_line := total_line st + 1\<rparr>))
            else if file_to_write = 1
                 then (last_person, file_to_write,
                       st\<lparr>dec_tmp := dec_tmp st @ [SPC] @ line_split ! 3\<rparr>)
                 else (last_person, file_to_write,
                       st\<lparr>str_buffer := str_buffer st @ [SPC] @ line_split ! 3\<rparr>))
         else (last_person, file_to_write, st))"

definition main_loop :: "string \<times> nat \<times> dstate \<Rightarrow> string list \<Rightarrow> string \<times> nat \<times> dstate" where
  "main_loop s ls = foldl main_step s ls"

text \<open>After the loop: \<open>if file_to_write == 1: enc_dec_files[1].write('\n')\<close>.\<close>

definition close_line :: "string \<times> nat \<times> dstate \<Rightarrow> dstate" where
  "close_line s =
     (case s of (last_person, file_to_write, st) \<Rightarrow>
        if file_to_write = 1 then st\<lparr>dec_tmp := dec_tmp st @ [NL]\<rparr> else st)"

text \<open>The body of \<open>for tsv in files\<close> on the text of one file. The first line is
  \<open>readline()[:-1]\<close>; \<open>first_line_split[1]\<close> and \<open>first_line_split[row]\<close> raise when
  the first row is too short.\<close>

definition parse_tsv :: "string \<Rightarrow> dstate \<Rightarrow> py_error + dstate" where
  "parse_tsv text st =
     (let ls = readlines text;
          first_line_split = row_fields (case ls of [] \<Rightarrow> [] | l # _ \<Rightarrow> l)
      in if length first_line_split < 2 then Inl IndexError
         else
           (let last_person = first_line_split ! 1;
                row = (if length first_line_split = 3 then 2 else 3)
            in if length first_line_split \<le> row then Inl IndexError
               else
                 (case find_second row last_person (tl ls)
                         (st\<lparr>enc_tmp := enc_tmp st @ first_line_split ! row\<rparr>) of
                    Inl e \<Rightarrow> Inl e
                  | Inr (last_person', file_to_write, rest, st1) \<Rightarrow>
                      Inr (close_line (main_loop (last_person', file_to_write, st1) rest)))))"

fun parse_files :: "world \<Rightarrow> string list \<Rightarrow> dstate \<Rightarrow> py_error + (dstate \<times> world)" where
  "parse_files w [] st = Inr (st, w)"
| "parse_files w (tsv # rest) st =
     (case open_read w tsv of
        Inl e \<Rightarrow> Inl e
      | Inr (text, w1) \<Rightarrow>
          (case parse_tsv text st of
             Inl e \<Rightarrow> Inl e
           | Inr st1 \<Rightarrow> parse_files w1 rest st1))"

subsection \<open>Splitting into the training and the test files\<close>

definition init_dstate :: dstate where
  "init_dstate = \<lparr>enc_tmp = [], dec_tmp = [], str_buffer = [], total_line = 0\<rparr>"

text \<open>\<open>int(total_line*(3/4))\<close> is computed in floating point; it is
  \<open>\<lfloor>3 * total_line / 4\<rfloor>\<close> as long as \<open>3 * total_line\<close> is below \<open>2^53\<close>.\<close>

definition split_index :: "nat \<Rightarrow> nat" where
  "split_index n = (3 * n) div 4"

text \<open>The two copy loops: the first \<open>split\<close> lines go to the training file, the
  others to the test file. The temporary file is read back in text mode.\<close>

definition split_lines :: "nat \<Rightarrow> string \<Rightarrow> string \<times> string" where
  "split_lines split content =
     (let ls = readlines (universal_newlines content)
      in (concat (take split ls), concat (drop split ls)))"

text \<open>The temporary files are created when they are opened and hold what was written
  to them once the loop is over; the written text reaches the file without a new open.
  The paths of the temporary files and of the four output files are taken to differ from
  each other and from the \<open>.tsv\<close> files.\<close>

definition flush_file :: "world \<Rightarrow> string \<Rightarrow> string \<Rightarrow> world" where
  "flush_file w p c = w\<lparr>files := (files w)(p \<mapsto> c)\<rparr>"

definition create_my_dataset ::
  "world \<Rightarrow> string \<Rightarrow> string list \<Rightarrow> string \<Rightarrow> string \<Rightarrow> string \<Rightarrow> string \<Rightarrow> py_error + world" where
  "create_my_dataset w dialogs_path tsvs train_enc train_dec test_enc test_dec =
     (if file_exists w train_enc \<and> file_exists w train_dec then Inr w
      else
        (case rm_one_way_conv w dialogs_path tsvs of
           Inl e \<Rightarrow> Inl e
         | Inr w1 \<Rightarrow>
             (let files = glob_tsv w1 tsvs;
                  w2 = write_file (write_file w1 (train_enc @ ''.tmp'') [])
                                  (train_dec @ ''.tmp'') []
              in case parse_files w2 files init_dstate of
                   Inl e \<Rightarrow> Inl e
                 | Inr (st, w3) \<Rightarrow>
                     (let w4 = flush_file (flush_file w3 (train_enc @ ''.tmp'') (enc_tmp st))
                                          (train_dec @ ''.tmp'') (dec_tmp st);
                          split = split_index (total_line st);
                          (train_e, test_e) = split_lines split (enc_tmp st);
                          w5 = write_file (write_file w4 train_enc train_e) test_enc test_e;
                          (train_d, test_d) = split_lines split (dec_tmp st);
                          w6 = write_file (write_file w5 train_dec train_d) test_dec test_d
                      in case remove_file w6 (train_enc @ ''.tmp'') of
                           Inl e \<Rightarrow> Inl e
                         | Inr w7 \<Rightarrow> remove_file w7 (train_dec @ ''.tmp'')))))"

section \<open>What the reformatter is to produce\<close>

text \<open>
  A message is a speaker and a text. A turn is a maximal run of consecutive messages of
  one speaker, joined by single spaces. An exchange is a pair of consecutive turns: the
  first and the second, the third and the fourth, and so on; a last turn without a
  partner is dropped.
\<close>

fun turns_from :: "string \<Rightarrow> string \<Rightarrow> (string \<times> string) list \<Rightarrow> string list" where
  "turns_from speaker text [] = [text]"
| "turns_from speaker text ((p, t) # ms) =
     (if p = speaker then turns_from speaker (text @ [SPC] @ t) ms
      else text # turns_from p t ms)"

definition turns :: "(string \<times> string) list \<Rightarrow> string list" where
  "turns ms = (case ms of [] \<Rightarrow> [] | (p, t) # ms' \<Rightarrow> turns_from p t ms')"

fun pair_up :: "'a list \<Rightarrow> ('a \<times> 'a) list" where
  "pair_up (a # b # xs) = (a, b) # pair_up xs"
| "pair_up xs = []"

definition exchanges :: "(string \<times> string) list \<Rightarrow> (string \<times> string) list" where
  "exchanges ms = pair_up (turns ms)"

text \<open>The rows of a file, and the files the reformatter is meant for: the first row
  has at least three fields, the rows that continue the first speaker's opening run have
  the column chosen from the first row, and the first row of another speaker exists and
  has at least four fields. Nothing is asked of the rows after it.\<close>

definition tsv_rows :: "string \<Rightarrow> string list list" where
  "tsv_rows text = map row_fields (readlines text)"

definition well_formed_tsv :: "string \<Rightarrow> bool" where
  "well_formed_tsv text =
     (case tsv_rows text of
        [] \<Rightarrow> False
      | r # rs \<Rightarrow>
          3 \<le> length r
          \<and> (\<forall>q \<in> set (takeWhile (\<lambda>q. q ! 1 = r ! 1) rs).
                (if length r = 3 then 2 else 3) < length q)
          \<and> (case dropWhile (\<lambda>q. q ! 1 = r ! 1) rs of
                [] \<Rightarrow> False
              | q # qs \<Rightarrow> 4 \<le> length q))"

text \<open>The messages of a file as the code reads them: the first row and the rows that
  continue the first speaker's opening run at the column chosen from the first row, every
  row from the first change of speaker on at column 3; of these rows, those with fewer
  than four fields are passed over.\<close>

definition messages :: "string \<Rightarrow> (string \<times> string) list" where
  "messages text =
     (case tsv_rows text of
        [] \<Rightarrow> []
      | r # rs \<Rightarrow>
          (let row = (if length r = 3 then 2 else 3);
               opening = (\<lambda>q. q ! 1 = r ! 1)
           in map (\<lambda>q. (q ! 1, q ! row)) (r # takeWhile opening rs)
              @ map (\<lambda>q. (q ! 1, q ! 3))
                    (filter (\<lambda>q. 3 < length q) (dropWhile opening rs))))"

text \<open>The messages of a file as the specification describes them: the column chosen from
  the first row is used for every row of the file.\<close>

definition messages_fixed_column :: "string \<Rightarrow> (string \<times> string) list" where
  "messages_fixed_column text =
     (case tsv_rows text of
        [] \<Rightarrow> []
      | r # rs \<Rightarrow>
          (let row = (if length r = 3 then 2 else 3)
           in map (\<lambda>q. (q ! 1, q ! row)) (r # rs)))"

definition enc_lines :: "(string \<times> string) list \<Rightarrow> string" where
  "enc_lines xs = write_lines (map fst xs)"

definition dec_lines :: "(string \<times> string) list \<Rightarrow> string" where
  "dec_lines xs = write_lines (map snd xs)"

text \<open>First position of a word in a list (the length of the list when it is absent).\<close>

definition first_pos :: "'a list \<Rightarrow> 'a \<Rightarrow> nat" where
  "first_pos xs a = length (takeWhile (\<lambda>x. x \<noteq> a) xs)"

text \<open>Speaker and text of a row read at column 3, as the main loop reads it.\<close>

definition msg_of :: "string \<Rightarrow> string \<times> string" where
  "msg_of l = (row_fields l ! 1, row_fields l ! 3)"

text \<open>The text of a file as \<open>open(tsv, 'r')\<close> presents it.\<close>

definition file_text :: "world \<Rightarrow> string \<Rightarrow> string" where
  "file_text w p = (case files w p of None \<Rightarrow> [] | Some c \<Rightarrow> universal_newlines c)"

text \<open>A row of a \<open>.tsv\<close> file: the fields joined by tabs, and a newline.\<close>

definition tsv_line :: "string list \<Rightarrow> string" where
  "tsv_line fs = join_with [TAB] fs @ [NL]"

text \<open>A sample corpus of two conversations: one of two rows and an empty last line, and
  one whose first row has three fields and whose last turn has no answer.\<close>

definition two_conversations :: world where
  "two_conversations =
     \<lparr>files = [''a.tsv'' \<mapsto> tsv_line [''t'', ''A'', ''B'', ''hello'']
                              @ tsv_line [''t'', ''B'', ''A'', ''world''] @ [NL],
                 ''b.tsv'' \<mapsto> tsv_line [''t'', ''C'', ''hi'']
                              @ tsv_line [''t'', ''D'', ''C'', ''yo'']
                              @ tsv_line [''t'', ''C'', ''D'', ''bye'']],
      io_log = []\<rparr>"

text \<open>A conversation of two exchanges with a row of two fields between them, in a
  directory from which the one-way conversations have not been removed yet.\<close>

definition interrupted_conversation :: world where
  "interrupted_conversation =
     \<lparr>files = [''dialogs/1/a.tsv'' \<mapsto> tsv_line [''t'', ''A'', ''B'', ''hello'']
                                        @ tsv_line [''t'', ''B'', ''A'', ''world'']
                                        @ tsv_line [''t'', ''A'']
                                        @ tsv_line [''t'', ''A'', ''B'', ''how'']
                                        @ tsv_line [''t'', ''B'', ''A'', ''fine'']],
      io_log = []\<rparr>"

text \<open>The contents of a file after a run that ended without an error.\<close>

definition file_after :: "py_error + world \<Rightarrow> string \<Rightarrow> string option" where
  "file_after r p = (case r of Inl e \<Rightarrow> None | Inr w \<Rightarrow> files w p)"

text \<open>A word without whitespace: what \<open>basic_tokenizer\<close> yields, and what a line of
  the vocabulary file gives back unchanged when it is stripped.\<close>

definition no_space :: "string \<Rightarrow> bool" where
  "no_space w = (\<forall>c \<in> set w. \<not> is_space c)"

section \<open>Lines, dictionaries and tokens\<close>

lemma readlines_line:
  "NL \<notin> set t \<Longrightarrow> readlines (t @ NL # rest) = (t @ [NL]) # readlines rest"
  by (induction t) auto

lemma readlines_write_lines_Cons:
  "NL \<notin> set t \<Longrightarrow> readlines (write_lines (t # ts)) = (t @ [NL]) # readlines (write_lines ts)"
  by (simp add: write_lines_def readlines_line)

lemma readlines_write_lines:
  "\<forall>t \<in> set ts. NL \<notin> set t \<Longrightarrow> readlines (write_lines ts) = map (\<lambda>t. t @ [NL]) ts"
proof (induction ts)
  case Nil
  then show ?case by (simp add: write_lines_def)
next
  case (Cons t ts)
  then show ?case by (simp add: readlines_write_lines_Cons)
qed

lemma map_of_dict_set: "map_of (dict_set k v d) = (map_of d)(k \<mapsto> v)"
  by (induction d) (auto simp: fun_eq_iff)

lemma keys_dict_set:
  "map fst (dict_set k v d) = (if k \<in> set (map fst d) then map fst d else map fst d @ [k])"
  by (induction d) auto

lemma py_dict_snoc: "py_dict (ps @ [(k, v)]) = dict_set k v (py_dict ps)"
  by (simp add: py_dict_def)

lemma keys_py_dict:
  "distinct (map fst (py_dict ps)) \<and> set (map fst (py_dict ps)) = fst ` set ps"
proof (induction ps rule: rev_induct)
  case Nil
  then show ?case by (simp add: py_dict_def)
next
  case (snoc p ps)
  obtain k v where p: "p = (k, v)" by (cases p)
  from snoc show ?case
    unfolding p py_dict_snoc keys_dict_set by auto
qed

lemma length_py_dict: "length (py_dict ps) = card (fst ` set ps)"
proof -
  have "card (set (map fst (py_dict ps))) = length (map fst (py_dict ps))"
    using keys_py_dict [of ps] distinct_card by blast
  then show ?thesis using keys_py_dict [of ps] by simp
qed

lemma id_pairs_snoc: "id_pairs (toks @ [x]) = id_pairs toks @ [(x, int (length toks))]"
  by (simp add: id_pairs_def enumerate_append_eq)

lemma keys_id_pairs: "map fst (id_pairs toks) = toks"
proof -
  have "fst \<circ> (\<lambda>(y::nat, x::string). (x, int y)) = snd"
    by (auto simp: fun_eq_iff)
  then show ?thesis by (simp add: id_pairs_def)
qed

lemma fst_id_pairs: "fst ` set (id_pairs toks) = set toks"
  using keys_id_pairs [of toks] by (metis set_map)

lemma map_of_py_dict_id_pairs:
  "map_of (py_dict (id_pairs toks)) t = Some k \<longleftrightarrow>
     (\<exists>m. k = int m \<and> m < length toks \<and> toks ! m = t \<and>
          (\<forall>m' < length toks. toks ! m' = t \<longrightarrow> m' \<le> m))"
proof (induction toks rule: rev_induct)
  case Nil
  then show ?case by (simp add: id_pairs_def py_dict_def)
next
  case (snoc x toks)
  show ?case
  proof (cases "t = x")
    case True
    have "map_of (py_dict (id_pairs (toks @ [x]))) t = Some (int (length toks))"
      by (simp add: id_pairs_snoc py_dict_snoc map_of_dict_set True)
    moreover have "(\<exists>m. k = int m \<and> m < length (toks @ [x]) \<and> (toks @ [x]) ! m = t \<and>
          (\<forall>m' < length (toks @ [x]). (toks @ [x]) ! m' = t \<longrightarrow> m' \<le> m)) \<longleftrightarrow> k = int (length toks)"
      (is "?L \<longleftrightarrow> ?R")
    proof
      assume ?L
      then obtain m where m: "k = int m" "m < length (toks @ [x])"
        "\<forall>m' < length (toks @ [x]). (toks @ [x]) ! m' = t \<longrightarrow> m' \<le> m" by blast
      from m(3) True have "length toks \<le> m" by (auto simp: nth_append)
      with m(2) have "m = length toks" by simp
      with m(1) show ?R by simp
    next
      assume ?R
      then show ?L using True by (intro exI [of _ "length toks"]) (auto simp: nth_append)
    qed
    ultimately show ?thesis by auto
  next
    case False
    have "map_of (py_dict (id_pairs (toks @ [x]))) t = map_of (py_dict (id_pairs toks)) t"
      using False by (simp add: id_pairs_snoc py_dict_snoc map_of_dict_set)
    moreover have "(\<exists>m. k = int m \<and> m < length (toks @ [x]) \<and> (toks @ [x]) ! m = t \<and>
          (\<forall>m' < length (toks @ [x]). (toks @ [x]) ! m' = t \<longrightarrow> m' \<le> m)) \<longleftrightarrow>
          (\<exists>m. k = int m \<and> m < length toks \<and> toks ! m = t \<and>
          (\<forall>m' < length toks. toks ! m' = t \<longrightarrow> m' \<le> m))"
      using False by (auto simp: nth_append less_Suc_eq)
    ultimately show ?thesis using snoc.IH by simp
  qed
qed

lemma initialize_vocabulary_eq:
  "files w p = Some content \<Longrightarrow>
   initialize_vocabulary w p =
     Inr ((py_dict (id_pairs (map py_strip (readlines content))), map py_strip (readlines content)),
          w\<lparr>io_log := io_log w @ [Read p]\<rparr>)"
  by (simp add: initialize_vocabulary_def file_exists_def gfile_read_def id_pairs_def Let_def)

lemma split_ws_tokens:
  "\<forall>c \<in> set word. \<not> is_space c \<Longrightarrow> w \<in> set (split_ws word s)
   \<Longrightarrow> w \<noteq> [] \<and> (\<forall>c \<in> set w. \<not> is_space c)"
proof (induction s arbitrary: word)
  case Nil
  then show ?case by (auto split: if_splits)
next
  case (Cons c s)
  show ?case
  proof (cases "is_space c")
    case True
    then have "w = word \<and> word \<noteq> [] \<or> w \<in> set (split_ws [] s)"
      using Cons.prems(2) by (auto split: if_splits)
    then show ?thesis
      using Cons.prems(1) Cons.IH [of "[]"] by auto
  next
    case False
    then have "w \<in> set (split_ws (word @ [c]) s)" using Cons.prems(2) by simp
    moreover have "\<forall>d \<in> set (word @ [c]). \<not> is_space d" using False Cons.prems(1) by simp
    ultimately show ?thesis using Cons.IH [of "word @ [c]"] by blast
  qed
qed

lemma word_split_chars:
  "w \<in> set (word_split piece s) \<Longrightarrow> set w \<subseteq> set piece \<union> set s"
proof (induction s arbitrary: piece)
  case Nil
  then show ?case by simp
next
  case (Cons c s)
  show ?case
  proof (cases "is_punct c")
    case True
    then have "w = piece \<or> w = [c] \<or> w \<in> set (word_split [] s)"
      using Cons.prems by auto
    then show ?thesis using Cons.IH [of "[]"] by auto
  next
    case False
    then have "w \<in> set (word_split (piece @ [c]) s)" using Cons.prems by simp
    then show ?thesis using Cons.IH [of "piece @ [c]"] by auto
  qed
qed

lemma basic_tokenizer_tokens:
  assumes "w \<in> set (basic_tokenizer s)"
  shows "w \<noteq> [] \<and> no_space w"
proof -
  from assms obtain frag where frag: "frag \<in> set (py_split (py_strip s))"
      and w: "w \<in> set (word_split [] frag)" and ne: "w \<noteq> []"
    by (auto simp: basic_tokenizer_def)
  from frag have "\<forall>c \<in> set frag. \<not> is_space c"
    using split_ws_tokens [of "[]" frag "py_strip s"] by (simp add: py_split_def)
  moreover from w have "set w \<subseteq> set frag"
    using word_split_chars [of w "[]" frag] by simp
  ultimately show ?thesis using ne by (auto simp: no_space_def)
qed

lemma no_space_digit_sub: "no_space w \<Longrightarrow> no_space (digit_sub w)"
  by (auto simp: no_space_def digit_sub_def is_space_def)

lemma corpus_words_default:
  "w \<in> set (corpus_words None normalize_digits data) \<Longrightarrow> no_space w"
  by (auto simp: corpus_words_def tokenize_def no_space_digit_sub
           dest: basic_tokenizer_tokens split: if_splits)

lemma no_space_NL: "no_space w \<Longrightarrow> NL \<notin> set w"
  by (auto simp: no_space_def is_space_def)

lemma dropWhile_no_space: "no_space w \<Longrightarrow> dropWhile is_space w = w"
  by (cases w) (auto simp: no_space_def)

lemma py_strip_line: "no_space w \<Longrightarrow> py_strip (w @ [NL]) = w"
proof (cases "w = []")
  case True
  then show ?thesis by (simp add: py_strip_def is_space_def)
next
  case False
  assume w: "no_space w"
  then have "no_space (rev w)" by (simp add: no_space_def)
  then have "dropWhile is_space (rev w) = rev w" by (rule dropWhile_no_space)
  moreover have "dropWhile is_space (w @ [NL]) = w @ [NL]"
    using w False by (cases w) (auto simp: no_space_def)
  moreover have "is_space NL" by (simp add: is_space_def)
  ultimately show ?thesis by (simp add: py_strip_def)
qed

lemma keys_count_word:
  "map fst (count_word d w) = (if w \<in> set (map fst d) then map fst d else map fst d @ [w])"
  by (simp add: count_word_def keys_dict_set split: option.splits)

lemma map_of_count_word:
  "map_of (count_word d w) = (map_of d)(w \<mapsto> (case map_of d w of Some n \<Rightarrow> n + 1 | None \<Rightarrow> 1))"
  by (simp add: count_word_def map_of_dict_set split: option.splits)

lemma count_vocab_snoc: "count_vocab (ws @ [x]) = count_word (count_vocab ws) x"
  by (simp add: count_vocab_def)

lemma keys_count_vocab:
  "distinct (map fst (count_vocab ws)) \<and> set (map fst (count_vocab ws)) = set ws"
proof (induction ws rule: rev_induct)
  case Nil
  then show ?case by (simp add: count_vocab_def)
next
  case (snoc x ws)
  then show ?case unfolding count_vocab_snoc keys_count_word by auto
qed

lemma map_of_count_vocab:
  "map_of (count_vocab ws) w = (if w \<in> set ws then Some (count_list ws w) else None)"
proof (induction ws rule: rev_induct)
  case Nil
  then show ?case by (simp add: count_vocab_def)
next
  case (snoc x ws)
  then show ?case
    by (auto simp: count_vocab_snoc map_of_count_word)
qed

lemma first_pos_snoc_old: "a \<in> set ws \<Longrightarrow> first_pos (ws @ [x]) a = first_pos ws a"
  by (simp add: first_pos_def takeWhile_append1)

lemma first_pos_less: "a \<in> set ws \<Longrightarrow> first_pos ws a < length ws"
  unfolding first_pos_def by (induction ws) auto

lemma first_pos_snoc_new: "x \<notin> set ws \<Longrightarrow> first_pos (ws @ [x]) x = length ws"
  unfolding first_pos_def by (induction ws) auto

lemma keys_count_vocab_order:
  "sorted_wrt (\<lambda>a b. first_pos ws a < first_pos ws b) (map fst (count_vocab ws))"
proof (induction ws rule: rev_induct)
  case Nil
  then show ?case by (simp add: count_vocab_def)
next
  case (snoc x ws)
  let ?ks = "map fst (count_vocab ws)"
  have ks: "fst ` set (count_vocab ws) = set ws" using keys_count_vocab [of ws] by simp
  have old: "sorted_wrt (\<lambda>a b. first_pos (ws @ [x]) a < first_pos (ws @ [x]) b) ?ks"
    using snoc.IH
    by (rule sorted_wrt_mono_rel [rotated]) (simp add: ks first_pos_snoc_old)
  show ?case
  proof (cases "x \<in> set ws")
    case True
    then show ?thesis using old ks by (simp add: count_vocab_snoc keys_count_word)
  next
    case False
    then have "\<forall>a \<in> set ?ks. first_pos (ws @ [x]) a < first_pos (ws @ [x]) x"
      by (simp add: ks first_pos_snoc_old first_pos_snoc_new first_pos_less)
    then show ?thesis
      using old ks False by (simp add: count_vocab_snoc keys_count_word sorted_wrt_append)
  qed
qed

lemma sorted_wrt_insort_key:
  fixes f :: "'a \<Rightarrow> int"
  assumes "sorted_wrt (\<lambda>a b. f a < f b \<or> (f a = f b \<and> Q a b)) ys"
      and "\<forall>y \<in> set ys. Q x y"
  shows "sorted_wrt (\<lambda>a b. f a < f b \<or> (f a = f b \<and> Q a b)) (insort_key f x ys)"
  using assms
proof (induction ys)
  case Nil
  then show ?case by simp
next
  case (Cons y ys)
  show ?case
  proof (cases "f x \<le> f y")
    case True
    have "\<forall>z \<in> set ys. f y \<le> f z" using Cons.prems(1) by auto
    with True Cons.prems show ?thesis by fastforce
  next
    case False
    with Cons show ?thesis by (auto simp: set_insort_key)
  qed
qed

lemma sorted_wrt_sort_key:
  fixes f :: "'a \<Rightarrow> int"
  assumes "sorted_wrt Q xs"
  shows "sorted_wrt (\<lambda>a b. f a < f b \<or> (f a = f b \<and> Q a b)) (sort_key f xs)"
  using assms
proof (induction xs)
  case Nil
  then show ?case by simp
next
  case (Cons x xs)
  then show ?case by (simp add: sorted_wrt_insort_key)
qed

lemma sorted_vocab_set:
  "distinct (sorted_vocab (count_vocab ws)) \<and> set (sorted_vocab (count_vocab ws)) = set ws"
  using keys_count_vocab [of ws] by (simp add: sorted_vocab_def py_sorted_reverse_def)

lemma length_sorted_vocab: "length (sorted_vocab (count_vocab ws)) = card (set ws)"
  using sorted_vocab_set [of ws] distinct_card by fastforce

lemma sorted_vocab_order:
  "sorted_wrt (\<lambda>a b. count_list ws a > count_list ws b
                    \<or> (count_list ws a = count_list ws b \<and> first_pos ws a < first_pos ws b))
     (sorted_vocab (count_vocab ws))"
proof -
  let ?f = "\<lambda>w. - (case map_of (count_vocab ws) w of Some n \<Rightarrow> int n | None \<Rightarrow> 0)"
  let ?Q = "\<lambda>a b. first_pos ws a < first_pos ws b"
  have "sorted_wrt (\<lambda>a b. ?f a < ?f b \<or> (?f a = ?f b \<and> ?Q a b))
          (sort_key ?f (map fst (count_vocab ws)))"
    by (rule sorted_wrt_sort_key) (rule keys_count_vocab_order)
  then have "sorted_wrt (\<lambda>a b. ?f a < ?f b \<or> (?f a = ?f b \<and> ?Q a b))
          (sorted_vocab (count_vocab ws))"
    by (simp add: sorted_vocab_def py_sorted_reverse_def)
  then show ?thesis
    by (rule sorted_wrt_mono_rel [rotated])
       (use sorted_vocab_set [of ws] in \<open>auto simp: map_of_count_vocab\<close>)
qed

lemma create_vocabulary_eq:
  "\<not> file_exists w vocabulary_path \<Longrightarrow> files w data_path = Some data \<Longrightarrow>
   create_vocabulary w vocabulary_path data_path max_vocabulary_size tokenizer normalize_digits =
     Inr (gfile_write (w\<lparr>io_log := io_log w @ [Read data_path]\<rparr>) vocabulary_path
            (map (\<lambda>w. w @ [NL])
                 (vocab_list max_vocabulary_size
                    (corpus_words tokenizer normalize_digits data))))"
  by (simp add: create_vocabulary_def gfile_read_def)

lemma gfile_write_lines:
  "ts \<noteq> [] \<Longrightarrow> gfile_write w p (map (\<lambda>t. t @ [NL]) ts) = write_file w p (write_lines ts)"
  by (simp add: gfile_write_def write_lines_def)

lemma gfile_write_Nil: "gfile_write w p [] = w"
  by (simp add: gfile_write_def)

lemma create_vocabulary_written:
  "\<not> file_exists w vocabulary_path \<Longrightarrow> files w data_path = Some data \<Longrightarrow>
   vocab_list max_vocabulary_size (corpus_words tokenizer normalize_digits data) \<noteq> [] \<Longrightarrow>
   create_vocabulary w vocabulary_path data_path max_vocabulary_size tokenizer normalize_digits =
     Inr (write_file (w\<lparr>io_log := io_log w @ [Read data_path]\<rparr>) vocabulary_path
            (write_lines (vocab_list max_vocabulary_size
                            (corpus_words tokenizer normalize_digits data))))"
  by (simp add: create_vocabulary_eq gfile_write_lines)

lemma files_write_file: "files (write_file w p c) p = Some c"
  by (simp add: write_file_def)

lemma vocab_list_nonneg:
  "0 \<le> m \<Longrightarrow> vocab_list m ws = take (nat m) (START_VOCAB @ sorted_vocab (count_vocab ws))"
  by (simp add: vocab_list_def py_slice_to_def Let_def)

lemma vocab_list_neg:
  "m < 0 \<Longrightarrow> vocab_list m ws =
     take (length (START_VOCAB @ sorted_vocab (count_vocab ws)) - nat (- m))
          (START_VOCAB @ sorted_vocab (count_vocab ws))"
  by (simp add: vocab_list_def py_slice_to_def Let_def)

lemma length_START_VOCAB: "length START_VOCAB = 4"
  by (simp add: START_VOCAB_def)

lemma START_VOCAB_no_space: "t \<in> set START_VOCAB \<Longrightarrow> no_space t"
  by (auto simp: START_VOCAB_def PAD_def GO_def EOS_def UNK_def no_space_def is_space_def)

lemma distinct_START_VOCAB: "distinct START_VOCAB"
  by (simp add: START_VOCAB_def PAD_def GO_def EOS_def UNK_def)

lemma length_vocab_list_nonneg:
  "0 \<le> m \<Longrightarrow> int (length (vocab_list m ws)) = min (4 + int (card (set ws))) m"
  by (simp add: vocab_list_nonneg length_sorted_vocab length_START_VOCAB)

lemma vocab_list_nonempty: "1 \<le> m \<Longrightarrow> vocab_list m ws \<noteq> []"
  by (simp add: vocab_list_nonneg START_VOCAB_def)

lemma set_vocab_list: "set (vocab_list m ws) \<subseteq> set START_VOCAB \<union> set ws"
proof -
  have "set (vocab_list m ws) \<subseteq> set (START_VOCAB @ sorted_vocab (count_vocab ws))"
    by (cases "0 \<le> m") (auto simp: vocab_list_nonneg vocab_list_neg dest: in_set_takeD)
  then show ?thesis using sorted_vocab_set [of ws] by auto
qed

lemma distinct_vocab_list:
  "set ws \<inter> set START_VOCAB = {} \<Longrightarrow> distinct (vocab_list m ws)"
proof -
  assume "set ws \<inter> set START_VOCAB = {}"
  then have "distinct (START_VOCAB @ sorted_vocab (count_vocab ws))"
    using sorted_vocab_set [of ws] distinct_START_VOCAB by auto
  moreover obtain n where "vocab_list m ws = take n (START_VOCAB @ sorted_vocab (count_vocab ws))"
    using vocab_list_nonneg [of m ws] vocab_list_neg [of m ws] by (metis not_le)
  ultimately show ?thesis by (metis distinct_take)
qed

lemma vocab_list_reserved:
  "4 \<le> m \<Longrightarrow> \<exists>rest. vocab_list m ws = START_VOCAB @ rest"
proof -
  assume "4 \<le> m"
  then have "vocab_list m ws = START_VOCAB @ take (nat m - 4) (sorted_vocab (count_vocab ws))"
    by (simp add: vocab_list_nonneg length_START_VOCAB)
  then show ?thesis by blast
qed

lemma readlines_reserved:
  "take 4 (readlines (write_lines (START_VOCAB @ rest)))
     = [''_PAD'' @ [NL], ''_GO'' @ [NL], ''_EOS'' @ [NL], ''_UNK'' @ [NL]]"
  by (simp add: START_VOCAB_def PAD_def GO_def EOS_def UNK_def readlines_write_lines_Cons)

lemma vocab_list_no_space:
  assumes "tokenizer = None \<or> (\<forall>t \<in> set (corpus_words tokenizer nd data). no_space t)"
      and "t \<in> set (vocab_list m (corpus_words tokenizer nd data))"
  shows "no_space t"
proof -
  have "\<forall>t \<in> set (corpus_words tokenizer nd data). no_space t"
    using assms(1) corpus_words_default by blast
  then show ?thesis
    using assms(2) set_vocab_list [of m "corpus_words tokenizer nd data"] START_VOCAB_no_space
    by blast
qed

lemma map_strip_lines:
  "\<forall>t \<in> set ts. no_space t \<Longrightarrow> map py_strip (map (\<lambda>t. t @ [NL]) ts) = ts"
  by (induction ts) (simp_all add: py_strip_line)

lemma map_of_py_dict_distinct:
  assumes "distinct toks" and "i < length toks"
  shows "map_of (py_dict (id_pairs toks)) (toks ! i) = Some (int i)"
proof -
  have "\<forall>m' < length toks. toks ! m' = toks ! i \<longrightarrow> m' \<le> i"
    using assms nth_eq_iff_index_eq by fastforce
  then show ?thesis
    using map_of_py_dict_id_pairs [of toks "toks ! i" "int i"] assms(2) by blast
qed

lemmas eval_defs = create_vocabulary_def file_exists_def gfile_read_def write_file_def
                gfile_write_def
                write_lines_def vocab_list_def START_VOCAB_def PAD_def GO_def EOS_def UNK_def
                py_slice_to_def Let_def corpus_words_def tokenize_def basic_tokenizer_def
                py_split_def py_strip_def is_space_def is_punct_def digit_sub_def is_digit_def
                count_vocab_def count_word_def sorted_vocab_def py_sorted_reverse_def

lemma turns_from_nonempty: "turns_from p t ms \<noteq> []"
  by (induction ms arbitrary: p t) (auto split: if_splits)

lemma pair_up_turns_from:
  "pair_up (a # turns_from p t ms)
     = (a, hd (turns_from p t ms)) # pair_up (tl (turns_from p t ms))"
  using turns_from_nonempty [of p t ms] by (cases "turns_from p t ms") auto

lemma enc_lines_Cons: "enc_lines ((a, b) # xs) = a @ [NL] @ enc_lines xs"
  by (simp add: enc_lines_def write_lines_def)

lemma dec_lines_Cons: "dec_lines ((a, b) # xs) = b @ [NL] @ dec_lines xs"
  by (simp add: dec_lines_def write_lines_def)

lemma enc_lines_Nil: "enc_lines [] = []"
  by (simp add: enc_lines_def write_lines_def)

lemma dec_lines_Nil: "dec_lines [] = []"
  by (simp add: dec_lines_def write_lines_def)

lemma main_loop_Nil: "main_loop s [] = s"
  by (simp add: main_loop_def)

lemma main_loop_Cons: "main_loop s (l # ls) = main_loop (main_step s l) ls"
  by (simp add: main_loop_def)

lemma main_step_same_enc:
  "3 < length (row_fields l) \<Longrightarrow> row_fields l ! 1 = p \<Longrightarrow>
   main_step (p, 0, st) l = (p, 0, st\<lparr>str_buffer := str_buffer st @ [SPC] @ row_fields l ! 3\<rparr>)"
  by (simp add: Let_def)

lemma main_step_same_dec:
  "3 < length (row_fields l) \<Longrightarrow> row_fields l ! 1 = p \<Longrightarrow>
   main_step (p, Suc 0, st) l = (p, Suc 0, st\<lparr>dec_tmp := dec_tmp st @ [SPC] @ row_fields l ! 3\<rparr>)"
  by (simp add: Let_def)

lemma main_step_change_enc:
  "3 < length (row_fields l) \<Longrightarrow> row_fields l ! 1 \<noteq> p \<Longrightarrow>
   main_step (p, 0, st) l =
     (row_fields l ! 1, Suc 0,
      st\<lparr>enc_tmp := enc_tmp st @ (str_buffer st @ [NL]),
         dec_tmp := dec_tmp st @ row_fields l ! 3,
         str_buffer := str_buffer st @ [NL],
         total_line := total_line st + 1\<rparr>)"
  by (simp add: Let_def)

lemma main_step_change_dec:
  "3 < length (row_fields l) \<Longrightarrow> row_fields l ! 1 \<noteq> p \<Longrightarrow>
   main_step (p, Suc 0, st) l =
     (row_fields l ! 1, 0, st\<lparr>dec_tmp := dec_tmp st @ [NL], str_buffer := row_fields l ! 3\<rparr>)"
  by (simp add: Let_def)

declare main_step.simps [simp del]

lemma main_loop_turns:
  assumes "\<forall>l \<in> set ls. 3 < length (row_fields l)"
  shows "enc_tmp (close_line (main_loop (p, 0, st) ls))
           = enc_tmp st @ enc_lines (pair_up (turns_from p (str_buffer st) (map msg_of ls)))
         \<and> dec_tmp (close_line (main_loop (p, 0, st) ls))
           = dec_tmp st @ dec_lines (pair_up (turns_from p (str_buffer st) (map msg_of ls)))
         \<and> total_line (close_line (main_loop (p, 0, st) ls))
           = total_line st + length (pair_up (turns_from p (str_buffer st) (map msg_of ls)))"
    and "dec_tmp st = D @ cur \<Longrightarrow>
         enc_tmp (close_line (main_loop (p, Suc 0, st) ls))
           = enc_tmp st @ enc_lines (pair_up (tl (turns_from p cur (map msg_of ls))))
         \<and> dec_tmp (close_line (main_loop (p, Suc 0, st) ls))
           = D @ hd (turns_from p cur (map msg_of ls)) @ [NL]
               @ dec_lines (pair_up (tl (turns_from p cur (map msg_of ls))))
         \<and> total_line (close_line (main_loop (p, Suc 0, st) ls))
           = total_line st + length (pair_up (tl (turns_from p cur (map msg_of ls))))"
  using assms
proof (induction ls arbitrary: p st D cur)
  case Nil
  {
    case 1
    show ?case by (simp add: main_loop_Nil close_line_def enc_lines_Nil dec_lines_Nil)
  next
    case 2
    then show ?case by (simp add: main_loop_Nil close_line_def enc_lines_Nil dec_lines_Nil)
  }
next
  case (Cons l ls)
  have msg: "map msg_of (l # ls) = (row_fields l ! 1, row_fields l ! 3) # map msg_of ls"
    by (simp add: msg_of_def)
  {
    case 1
    then have l: "3 < length (row_fields l)"
      and ls: "\<forall>l \<in> set ls. 3 < length (row_fields l)" by simp_all
    show ?case
    proof (cases "row_fields l ! 1 = p")
      case True
      let ?st1 = "st\<lparr>str_buffer := str_buffer st @ [SPC] @ row_fields l ! 3\<rparr>"
      have step: "main_loop (p, 0, st) (l # ls) = main_loop (p, 0, ?st1) ls"
        by (simp only: main_loop_Cons main_step_same_enc [OF l True])
      have ts: "turns_from p (str_buffer st) (map msg_of (l # ls))
                  = turns_from p (str_buffer ?st1) (map msg_of ls)"
        unfolding msg using True by simp
      show ?thesis
        unfolding step ts using Cons.IH(1) [OF ls, of p ?st1] by simp
    next
      case False
      let ?st1 = "st\<lparr>enc_tmp := enc_tmp st @ (str_buffer st @ [NL]),
         dec_tmp := dec_tmp st @ row_fields l ! 3,
         str_buffer := str_buffer st @ [NL],
         total_line := total_line st + 1\<rparr>"
      let ?ts = "turns_from (row_fields l ! 1) (row_fields l ! 3) (map msg_of ls)"
      have step: "main_loop (p, 0, st) (l # ls) = main_loop (row_fields l ! 1, Suc 0, ?st1) ls"
        by (simp only: main_loop_Cons main_step_change_enc [OF l False])
      have ts: "pair_up (turns_from p (str_buffer st) (map msg_of (l # ls)))
                  = (str_buffer st, hd ?ts) # pair_up (tl ?ts)"
        unfolding msg using False by (simp add: pair_up_turns_from)
      have "dec_tmp ?st1 = dec_tmp st @ row_fields l ! 3" by simp
      from Cons.IH(2) [OF this ls, of "row_fields l ! 1"] show ?thesis
        unfolding step ts by (simp add: enc_lines_Cons dec_lines_Cons)
    qed
  next
    case 2
    then have l: "3 < length (row_fields l)"
      and ls: "\<forall>l \<in> set ls. 3 < length (row_fields l)"
      and D: "dec_tmp st = D @ cur" by simp_all
    show ?case
    proof (cases "row_fields l ! 1 = p")
      case True
      let ?cur = "cur @ [SPC] @ row_fields l ! 3"
      let ?st1 = "st\<lparr>dec_tmp := dec_tmp st @ [SPC] @ row_fields l ! 3\<rparr>"
      have step: "main_loop (p, Suc 0, st) (l # ls) = main_loop (p, Suc 0, ?st1) ls"
        by (simp only: main_loop_Cons main_step_same_dec [OF l True])
      have ts: "turns_from p cur (map msg_of (l # ls)) = turns_from p ?cur (map msg_of ls)"
        unfolding msg using True by simp
      have "dec_tmp ?st1 = D @ ?cur" using D by simp
      from Cons.IH(2) [OF this ls, of p] show ?thesis
        unfolding step ts by simp
    next
      case False
      let ?st1 = "st\<lparr>dec_tmp := dec_tmp st @ [NL], str_buffer := row_fields l ! 3\<rparr>"
      have step: "main_loop (p, Suc 0, st) (l # ls) = main_loop (row_fields l ! 1, 0, ?st1) ls"
        by (simp only: main_loop_Cons main_step_change_dec [OF l False])
      have ts: "turns_from p cur (map msg_of (l # ls))
                  = cur # turns_from (row_fields l ! 1) (str_buffer ?st1) (map msg_of ls)"
        unfolding msg using False by simp
      show ?thesis
        unfolding step ts using Cons.IH(1) [OF ls, of "row_fields l ! 1" ?st1] D by simp
    qed
  }
qed

declare find_second.simps [simp del]

lemma find_second_Nil: "find_second row p [] st = Inr (p, 0, [], st)"
  by (simp add: find_second.simps)

lemma find_second_same:
  "row < length (row_fields l) \<Longrightarrow> 2 \<le> row \<Longrightarrow> row_fields l ! 1 = p \<Longrightarrow>
   find_second row p (l # ls) st
     = find_second row p ls (st\<lparr>enc_tmp := enc_tmp st @ [SPC] @ row_fields l ! row\<rparr>)"
  by (simp add: find_second.simps Let_def)

lemma find_second_change:
  "3 < length (row_fields l) \<Longrightarrow> row_fields l ! 1 \<noteq> p \<Longrightarrow>
   find_second row p (l # ls) st
     = Inr (row_fields l ! 1, 1, ls,
            st\<lparr>enc_tmp := enc_tmp st @ [NL],
               dec_tmp := dec_tmp st @ row_fields l ! 3,
               total_line := total_line st + 1\<rparr>)"
  by (simp add: find_second.simps Let_def)

lemma find_second_opening:
  assumes "\<forall>l \<in> set (takeWhile (\<lambda>l. row_fields l ! 1 = p) ls). row < length (row_fields l)"
      and "2 \<le> row"
      and "dropWhile (\<lambda>l. row_fields l ! 1 = p) ls = l1 # rest"
      and "3 < length (row_fields l1)"
  shows "find_second row p ls st =
           Inr (row_fields l1 ! 1, 1, rest,
                st\<lparr>enc_tmp := enc_tmp st
                       @ concat (map (\<lambda>l. [SPC] @ row_fields l ! row)
                                     (takeWhile (\<lambda>l. row_fields l ! 1 = p) ls)) @ [NL],
                   dec_tmp := dec_tmp st @ row_fields l1 ! 3,
                   total_line := total_line st + 1\<rparr>)"
  using assms
proof (induction ls arbitrary: st)
  case Nil
  then show ?case by simp
next
  case (Cons l ls)
  show ?case
  proof (cases "row_fields l ! 1 = p")
    case True
    then have l: "row < length (row_fields l)" using Cons.prems(1) by simp
    have "dropWhile (\<lambda>l. row_fields l ! 1 = p) ls = l1 # rest"
      using Cons.prems(3) True by simp
    moreover have "\<forall>l \<in> set (takeWhile (\<lambda>l. row_fields l ! 1 = p) ls). row < length (row_fields l)"
      using Cons.prems(1) True by simp
    ultimately show ?thesis
      using Cons.IH [of "st\<lparr>enc_tmp := enc_tmp st @ [SPC] @ row_fields l ! row\<rparr>"]
            Cons.prems(2,4) True
      by (simp add: find_second_same [OF l Cons.prems(2) True])
  next
    case False
    then have eq: "l1 = l" "rest = ls" using Cons.prems(3) by simp_all
    then have l: "3 < length (row_fields l)" using Cons.prems(4) by simp
    show ?thesis using False eq by (simp add: find_second_change [OF l False])
  qed
qed

lemma main_loop_filter:
  "main_loop s ls = main_loop s (filter (\<lambda>l. 3 < length (row_fields l)) ls)"
proof (induction ls arbitrary: s)
  case Nil
  then show ?case by simp
next
  case (Cons l ls)
  show ?case
  proof (cases "3 < length (row_fields l)")
    case True
    then show ?thesis using Cons.IH [of "main_step s l"] by (simp add: main_loop_Cons)
  next
    case False
    then have "main_step s l = s" by (cases s) (simp add: main_step.simps Let_def)
    then show ?thesis using False Cons.IH [of s] by (simp add: main_loop_Cons)
  qed
qed

lemma turns_from_opening:
  "\<forall>l \<in> set xs. row_fields l ! 1 = p \<Longrightarrow>
   turns_from p t (map (\<lambda>l. (row_fields l ! 1, row_fields l ! row)) xs @ ms)
     = turns_from p (t @ concat (map (\<lambda>l. [SPC] @ row_fields l ! row) xs)) ms"
  by (induction xs arbitrary: t) simp_all

lemma messages_lines:
  assumes "readlines text = l0 # ls"
  shows "messages text =
           (row_fields l0 ! 1, row_fields l0 ! (if length (row_fields l0) = 3 then 2 else 3))
           # map (\<lambda>l. (row_fields l ! 1,
                         row_fields l ! (if length (row_fields l0) = 3 then 2 else 3)))
                 (takeWhile (\<lambda>l. row_fields l ! 1 = row_fields l0 ! 1) ls)
           @ map msg_of (filter (\<lambda>l. 3 < length (row_fields l))
                           (dropWhile (\<lambda>l. row_fields l ! 1 = row_fields l0 ! 1) ls))"
  using assms
  by (simp add: messages_def tsv_rows_def Let_def takeWhile_map dropWhile_map filter_map
                comp_def msg_of_def)

lemma well_formed_lines:
  assumes "well_formed_tsv text"
  obtains l0 ls l1 rest where
    "readlines text = l0 # ls"
    "3 \<le> length (row_fields l0)"
    "\<forall>l \<in> set (takeWhile (\<lambda>l. row_fields l ! 1 = row_fields l0 ! 1) ls).
       (if length (row_fields l0) = 3 then 2 else 3) < length (row_fields l)"
    "dropWhile (\<lambda>l. row_fields l ! 1 = row_fields l0 ! 1) ls = l1 # rest"
    "3 < length (row_fields l1)"
    "row_fields l1 ! 1 \<noteq> row_fields l0 ! 1"
proof -
  from assms obtain l0 ls where lines: "readlines text = l0 # ls"
    by (cases "readlines text") (simp_all add: well_formed_tsv_def tsv_rows_def)
  let ?same = "\<lambda>l. row_fields l ! 1 = row_fields l0 ! 1"
  let ?P = "\<lambda>q. q ! 1 = row_fields l0 ! 1"
  have rows: "tsv_rows text = row_fields l0 # map row_fields ls"
    using lines by (simp add: tsv_rows_def)
  have same: "?P \<circ> row_fields = ?same" by (simp add: comp_def)
  have wf: "3 \<le> length (row_fields l0)
      \<and> (\<forall>q \<in> set (takeWhile ?P (map row_fields ls)).
            (if length (row_fields l0) = 3 then 2 else 3) < length q)
      \<and> (case dropWhile ?P (map row_fields ls) of [] \<Rightarrow> False | q # qs \<Rightarrow> 4 \<le> length q)"
    using assms unfolding well_formed_tsv_def rows list.case by blast
  then have run: "\<forall>l \<in> set (takeWhile ?same ls).
                    (if length (row_fields l0) = 3 then 2 else 3) < length (row_fields l)"
    unfolding takeWhile_map same by simp
  from wf obtain q qs where "dropWhile ?P (map row_fields ls) = q # qs" "4 \<le> length q"
    by (auto split: list.splits)
  then have "map row_fields (dropWhile ?same ls) = q # qs" "3 < length q"
    unfolding dropWhile_map same by simp_all
  then obtain l1 rest where drop: "dropWhile ?same ls = l1 # rest"
    and l1: "3 < length (row_fields l1)"
    by (auto simp: map_eq_Cons_conv)
  have "dropWhile ?same ls \<noteq> []" using drop by simp
  then have "\<not> ?same (hd (dropWhile ?same ls))" by (rule hd_dropWhile)
  then have other: "row_fields l1 ! 1 \<noteq> row_fields l0 ! 1"
    unfolding drop by simp
  from wf have first: "3 \<le> length (row_fields l0)" by simp
  show ?thesis by (rule that [OF lines first run drop l1 other])
qed

lemma parse_tsv_well_formed:
  assumes "well_formed_tsv text"
  shows "\<exists>st'. parse_tsv text st = Inr st'
         \<and> enc_tmp st' = enc_tmp st @ enc_lines (exchanges (messages text))
         \<and> dec_tmp st' = dec_tmp st @ dec_lines (exchanges (messages text))
         \<and> total_line st' = total_line st + length (exchanges (messages text))"
proof -
  from assms obtain l0 ls l1 rest where lines: "readlines text = l0 # ls"
    and r: "3 \<le> length (row_fields l0)"
    and run: "\<forall>l \<in> set (takeWhile (\<lambda>l. row_fields l ! 1 = row_fields l0 ! 1) ls).
                    (if length (row_fields l0) = 3 then 2 else 3) < length (row_fields l)"
    and drop: "dropWhile (\<lambda>l. row_fields l ! 1 = row_fields l0 ! 1) ls = l1 # rest"
    and long: "3 < length (row_fields l1)"
    and l1: "row_fields l1 ! 1 \<noteq> row_fields l0 ! 1"
    by (rule well_formed_lines)
  let ?r = "row_fields l0"
  let ?p = "?r ! 1"
  let ?row = "if length ?r = 3 then 2 else 3 :: nat"
  let ?same = "\<lambda>l. row_fields l ! 1 = ?p"
  let ?long = "\<lambda>l. 3 < length (row_fields l)"
  let ?T = "?r ! ?row @ concat (map (\<lambda>l. [SPC] @ row_fields l ! ?row) (takeWhile ?same ls))"
  let ?ts = "turns_from (row_fields l1 ! 1) (row_fields l1 ! 3) (map msg_of (filter ?long rest))"
  let ?st0 = "st\<lparr>enc_tmp := enc_tmp st @ ?r ! ?row\<rparr>"
  let ?st1 = "?st0\<lparr>enc_tmp := enc_tmp ?st0
                       @ concat (map (\<lambda>l. [SPC] @ row_fields l ! ?row) (takeWhile ?same ls)) @ [NL],
                   dec_tmp := dec_tmp ?st0 @ row_fields l1 ! 3,
                   total_line := total_line ?st0 + 1\<rparr>"
  have "2 \<le> ?row" by simp
  from find_second_opening [OF run this drop long, of ?st0]
  have second: "find_second ?row ?p ls ?st0 = Inr (row_fields l1 ! 1, 1, rest, ?st1)" .
  have "parse_tsv text st = Inr (close_line (main_loop (row_fields l1 ! 1, Suc 0, ?st1) rest))"
    using r second by (simp add: parse_tsv_def lines Let_def)
  then have parse: "parse_tsv text st
      = Inr (close_line (main_loop (row_fields l1 ! 1, Suc 0, ?st1) (filter ?long rest)))"
    using main_loop_filter [of _ rest] by simp
  have "turns (messages text)
          = turns_from ?p (?r ! ?row)
              (map (\<lambda>l. (row_fields l ! 1, row_fields l ! ?row)) (takeWhile ?same ls)
               @ map msg_of (filter ?long (dropWhile ?same ls)))"
    by (simp add: messages_lines [OF lines] turns_def)
  also have "\<dots> = turns_from ?p ?T (map msg_of (filter ?long (dropWhile ?same ls)))"
    by (rule turns_from_opening) (auto dest: set_takeWhileD)
  also have "\<dots> = ?T # ?ts"
  proof -
    have "map msg_of (filter ?long (l1 # rest))
            = (row_fields l1 ! 1, row_fields l1 ! 3) # map msg_of (filter ?long rest)"
      using long by (simp add: msg_of_def)
    then show ?thesis unfolding drop using l1 by simp
  qed
  finally have ex: "exchanges (messages text) = (?T, hd ?ts) # pair_up (tl ?ts)"
    by (simp add: exchanges_def pair_up_turns_from)
  have all_long: "\<forall>l \<in> set (filter ?long rest). 3 < length (row_fields l)" by simp
  have "dec_tmp ?st1 = dec_tmp st @ row_fields l1 ! 3" by simp
  from main_loop_turns(2) [OF all_long this, of "row_fields l1 ! 1"] show ?thesis
    unfolding parse ex by (simp add: enc_lines_Cons dec_lines_Cons)
qed

lemma readlines_butlast_NL: "l \<in> set (readlines s) \<Longrightarrow> NL \<notin> set (butlast l)"
proof (induction s arbitrary: l)
  case Nil
  then show ?case by simp
next
  case (Cons c cs)
  show ?case
  proof (cases "c = NL")
    case True
    then show ?thesis using Cons by auto
  next
    case False
    show ?thesis
    proof (cases "readlines cs")
      case Nil
      then show ?thesis using Cons.prems False by simp
    next
      case (Cons k ks)
      then have "l = c # k \<or> l \<in> set ks" using Cons.prems False by simp
      then show ?thesis
        using Cons.IH [of k] Cons.IH [of l] Cons False by (auto simp: butlast.simps split: if_splits)
    qed
  qed
qed

lemma split_on_chars: "f \<in> set (split_on d s) \<Longrightarrow> set f \<subseteq> set s"
proof (induction s arbitrary: f)
  case Nil
  then show ?case by simp
next
  case (Cons c cs)
  show ?case
  proof (cases "c = d")
    case True
    then show ?thesis using Cons by auto
  next
    case False
    show ?thesis
    proof (cases "split_on d cs")
      case Nil
      then show ?thesis using Cons.prems False by auto
    next
      case (Cons a as)
      then have "f = c # a \<or> f \<in> set as" using Cons.prems False by simp
      then show ?thesis using Cons.IH [of a] Cons.IH [of f] Cons by auto
    qed
  qed
qed

lemma turns_from_chars:
  "x \<in> set (turns_from p t ms) \<Longrightarrow> c \<in> set x \<Longrightarrow>
   c = SPC \<or> c \<in> set t \<or> (\<exists>m \<in> set ms. c \<in> set (snd m))"
proof (induction ms arbitrary: p t)
  case Nil
  then show ?case by simp
next
  case (Cons m ms)
  obtain q u where m: "m = (q, u)" by (cases m)
  show ?case
  proof (cases "q = p")
    case True
    then have "x \<in> set (turns_from p (t @ [SPC] @ u) ms)" using Cons.prems(1) m by simp
    from Cons.IH [OF this Cons.prems(2)] show ?thesis using m by auto
  next
    case False
    then have "x = t \<or> x \<in> set (turns_from q u ms)" using Cons.prems(1) m by simp
    then show ?thesis
    proof
      assume "x = t"
      then show ?thesis using Cons.prems(2) by simp
    next
      assume "x \<in> set (turns_from q u ms)"
      from Cons.IH [OF this Cons.prems(2)] show ?thesis using m by auto
    qed
  qed
qed

lemma pair_up_set: "(a, b) \<in> set (pair_up xs) \<Longrightarrow> a \<in> set xs \<and> b \<in> set xs"
  by (induction xs rule: pair_up.induct) auto

lemma enc_lines_append: "enc_lines (xs @ ys) = enc_lines xs @ enc_lines ys"
  by (simp add: enc_lines_def write_lines_def)

lemma dec_lines_append: "dec_lines (xs @ ys) = dec_lines xs @ dec_lines ys"
  by (simp add: dec_lines_def write_lines_def)

lemma open_read_text:
  "file_exists w p \<Longrightarrow> open_read w p = Inr (file_text w p, w\<lparr>io_log := io_log w @ [Read p]\<rparr>)"
  by (auto simp: open_read_def file_exists_def file_text_def)

lemma parse_files_well_formed:
  assumes "\<forall>p \<in> set tsvs. file_exists w p \<and> well_formed_tsv (file_text w p)"
  shows "\<exists>st' w'. parse_files w tsvs st = Inr (st', w')
         \<and> enc_tmp st' = enc_tmp st
               @ enc_lines (concat (map (\<lambda>p. exchanges (messages (file_text w p))) tsvs))
         \<and> dec_tmp st' = dec_tmp st
               @ dec_lines (concat (map (\<lambda>p. exchanges (messages (file_text w p))) tsvs))
         \<and> total_line st' = total_line st
               + length (concat (map (\<lambda>p. exchanges (messages (file_text w p))) tsvs))"
  using assms
proof (induction tsvs arbitrary: w st)
  case Nil
  then show ?case by (simp add: enc_lines_Nil dec_lines_Nil)
next
  case (Cons p ps)
  let ?w1 = "w\<lparr>io_log := io_log w @ [Read p]\<rparr>"
  let ?E = "\<lambda>w. concat (map (\<lambda>p. exchanges (messages (file_text w p))) ps)"
  from Cons.prems have p: "file_exists w p" "well_formed_tsv (file_text w p)" by simp_all
  have same: "file_text ?w1 = file_text w" "file_exists ?w1 = file_exists w"
    by (simp_all add: file_text_def file_exists_def fun_eq_iff)
  from parse_tsv_well_formed [OF p(2), of st] obtain st1 where
    st1: "parse_tsv (file_text w p) st = Inr st1"
      "enc_tmp st1 = enc_tmp st @ enc_lines (exchanges (messages (file_text w p)))"
      "dec_tmp st1 = dec_tmp st @ dec_lines (exchanges (messages (file_text w p)))"
      "total_line st1 = total_line st + length (exchanges (messages (file_text w p)))"
    by blast
  have "\<forall>p \<in> set ps. file_exists ?w1 p \<and> well_formed_tsv (file_text ?w1 p)"
    using Cons.prems by (simp add: same)
  from Cons.IH [OF this, of st1] obtain st' w' where
    rest: "parse_files ?w1 ps st1 = Inr (st', w')"
      "enc_tmp st' = enc_tmp st1 @ enc_lines (?E w)"
      "dec_tmp st' = dec_tmp st1 @ dec_lines (?E w)"
      "total_line st' = total_line st1 + length (?E w)"
    unfolding same by blast
  have "parse_files w (p # ps) st = Inr (st', w')"
    by (simp add: open_read_text [OF p(1)] st1(1) rest(1))
  then show ?case
    using st1 rest by (simp add: enc_lines_append dec_lines_append)
qed

lemmas parse_defs = parse_tsv_def row_fields_def find_second.simps main_step.simps
  main_loop_def close_line_def init_dstate_def Let_def tsv_line_def

lemma main_step_short: "length (row_fields l) \<le> 3 \<Longrightarrow> main_step s l = s"
  by (cases s) (simp add: main_step.simps Let_def)

lemma main_loop_append: "main_loop s (xs @ ys) = main_loop (main_loop s xs) ys"
  by (simp add: main_loop_def)

lemma universal_newlines_no_CR: "CR \<notin> set (universal_newlines s)"
  by (induction s rule: universal_newlines.induct) auto

lemma universal_newlines_id: "CR \<notin> set s \<Longrightarrow> universal_newlines s = s"
  by (induction s rule: universal_newlines.induct) auto

lemma readlines_chars: "l \<in> set (readlines s) \<Longrightarrow> set l \<subseteq> set s"
proof (induction s arbitrary: l)
  case Nil
  then show ?case by simp
next
  case (Cons c cs)
  show ?case
  proof (cases "c = NL")
    case True
    then show ?thesis using Cons by auto
  next
    case False
    show ?thesis
    proof (cases "readlines cs")
      case Nil
      then show ?thesis using Cons.prems False by simp
    next
      case (Cons k ks)
      then have "l = c # k \<or> l \<in> set ks" using Cons.prems False by simp
      then show ?thesis using Cons.IH [of k] Cons.IH [of l] Cons by auto
    qed
  qed
qed

lemma row_fields_chars:
  assumes "l \<in> set (readlines s)" and "k < length (row_fields l)"
  shows "set (row_fields l ! k) \<subseteq> set s - {NL}"
proof -
  have "row_fields l ! k \<in> set (split_on TAB (butlast l))"
    using assms(2) by (simp add: row_fields_def)
  then have "set (row_fields l ! k) \<subseteq> set (butlast l)" by (rule split_on_chars)
  moreover have "set (butlast l) \<subseteq> set s"
    using readlines_chars [OF assms(1)] by (auto dest: in_set_butlastD)
  ultimately show ?thesis using readlines_butlast_NL [OF assms(1)] by blast
qed

lemma messages_chars:
  assumes "well_formed_tsv text" and "(p, t) \<in> set (messages text)"
  shows "set t \<subseteq> set text - {NL}"
proof -
  from assms(1) obtain l0 ls l1 rest where lines: "readlines text = l0 # ls"
    and r: "3 \<le> length (row_fields l0)"
    and run: "\<forall>l \<in> set (takeWhile (\<lambda>l. row_fields l ! 1 = row_fields l0 ! 1) ls).
                    (if length (row_fields l0) = 3 then 2 else 3) < length (row_fields l)"
    by (rule well_formed_lines)
  let ?r = "row_fields l0"
  let ?row = "if length ?r = 3 then 2 else 3 :: nat"
  let ?same = "\<lambda>l. row_fields l ! 1 = ?r ! 1"
  let ?long = "\<lambda>l. 3 < length (row_fields l)"
  have cell: "\<And>l k. l \<in> set (l0 # ls) \<Longrightarrow> k < length (row_fields l)
                 \<Longrightarrow> set (row_fields l ! k) \<subseteq> set text - {NL}"
    using row_fields_chars [of _ "text"] lines by simp
  from assms(2) consider
      "t = ?r ! ?row"
    | l where "l \<in> set (takeWhile ?same ls)" "t = row_fields l ! ?row"
    | l where "l \<in> set (filter ?long (dropWhile ?same ls))" "t = row_fields l ! 3"
    unfolding messages_lines [OF lines] by (auto simp: msg_of_def)
  then show ?thesis
  proof cases
    case 1
    have "?row < length ?r" using r by auto
    then show ?thesis using cell [of l0 ?row] 1 by simp
  next
    case 2
    then have l: "l \<in> set ls" by (auto dest: set_takeWhileD)
    have "?row < length (row_fields l)" using run 2(1) by blast
    then show ?thesis using cell [of l ?row] l 2 by simp
  next
    case 3
    then have l: "l \<in> set ls" by (auto dest: set_dropWhileD)
    have "3 < length (row_fields l)" using 3(1) by simp
    then show ?thesis using cell [of l 3] l 3 by simp
  qed
qed

lemma exchanges_chars:
  assumes "well_formed_tsv text" and "(a, b) \<in> set (exchanges (messages text))"
  shows "set a \<union> set b \<subseteq> insert SPC (set text - {NL})"
proof -
  have turn: "set x \<subseteq> insert SPC (set text - {NL})" if "x \<in> set (turns (messages text))" for x
  proof (cases "messages text")
    case Nil
    then show ?thesis using that by (simp add: turns_def)
  next
    case (Cons m ms)
    obtain p t where m: "m = (p, t)" by (cases m)
    have x: "x \<in> set (turns_from p t ms)" using that Cons m by (simp add: turns_def)
    have t: "set t \<subseteq> set text - {NL}" using messages_chars [OF assms(1), of p t] Cons m by simp
    have ms: "\<forall>m' \<in> set ms. set (snd m') \<subseteq> set text - {NL}"
    proof
      fix m' assume "m' \<in> set ms"
      then have "(fst m', snd m') \<in> set (messages text)" using Cons by simp
      then show "set (snd m') \<subseteq> set text - {NL}" by (rule messages_chars [OF assms(1)])
    qed
    show ?thesis
    proof
      fix c assume "c \<in> set x"
      from turns_from_chars [OF x this] show "c \<in> insert SPC (set text - {NL})"
        using t ms by auto
    qed
  qed
  from assms(2) have "a \<in> set (turns (messages text)) \<and> b \<in> set (turns (messages text))"
    unfolding exchanges_def by (rule pair_up_set)
  then show ?thesis using turn by blast
qed

lemma write_lines_no_CR: "\<forall>t \<in> set ts. CR \<notin> set t \<Longrightarrow> CR \<notin> set (write_lines ts)"
  by (auto simp: write_lines_def)

lemma write_lines_take_drop:
  "concat (take k (map (\<lambda>t. t @ [NL]) ts)) = write_lines (take k ts)"
  "concat (drop k (map (\<lambda>t. t @ [NL]) ts)) = write_lines (drop k ts)"
  by (simp_all add: write_lines_def take_map drop_map)

lemma split_lines_write_lines:
  assumes "\<forall>t \<in> set ts. NL \<notin> set t \<and> CR \<notin> set t"
  shows "split_lines k (write_lines ts) = (write_lines (take k ts), write_lines (drop k ts))"
proof -
  have "universal_newlines (write_lines ts) = write_lines ts"
    using assms by (intro universal_newlines_id write_lines_no_CR) simp
  moreover have "readlines (write_lines ts) = map (\<lambda>t. t @ [NL]) ts"
    using assms by (intro readlines_write_lines) simp
  ultimately show ?thesis by (simp add: split_lines_def write_lines_take_drop)
qed

lemma file_text_no_CR: "CR \<notin> set (file_text w p)"
  by (simp add: file_text_def universal_newlines_no_CR split: option.splits)

lemma readlines_append:
  "a \<noteq> [] \<Longrightarrow> last a = NL \<Longrightarrow> readlines (a @ b) = readlines a @ readlines b"
proof (induction a)
  case Nil
  then show ?case by simp
next
  case (Cons c cs)
  show ?case
  proof (cases "cs = []")
    case True
    then show ?thesis using Cons.prems by simp
  next
    case False
    then have IH: "readlines (cs @ b) = readlines cs @ readlines b"
      using Cons by simp
    have "readlines cs \<noteq> []" using False by (cases cs) (auto split: list.splits)
    then show ?thesis using IH by (cases "readlines cs") auto
  qed
qed

lemma parse_tsv_lines:
  "readlines text = l0 # ls \<Longrightarrow>
   parse_tsv text st =
     (if length (row_fields l0) < 2 then Inl IndexError
      else if length (row_fields l0) \<le> (if length (row_fields l0) = 3 then 2 else 3)
      then Inl IndexError
      else (case find_second (if length (row_fields l0) = 3 then 2 else 3) (row_fields l0 ! 1) ls
                   (st\<lparr>enc_tmp := enc_tmp st
                        @ row_fields l0 ! (if length (row_fields l0) = 3 then 2 else 3)\<rparr>) of
              Inl e \<Rightarrow> Inl e
            | Inr (last_person', file_to_write, rest, st1) \<Rightarrow>
                Inr (close_line (main_loop (last_person', file_to_write, st1) rest))))"
  by (simp add: parse_tsv_def Let_def)

lemma parse_tsv_skips_short_row:
  assumes "well_formed_tsv head" and "last head = NL"
      and "l \<noteq> []" and "last l = NL" and "NL \<notin> set (butlast l)"
      and "length (row_fields l) < 3"
  shows "parse_tsv (head @ l @ tail) st = parse_tsv (head @ tail) st"
proof -
  from assms(1) obtain l0 ls l1 rest where lines: "readlines head = l0 # ls"
    and drop: "dropWhile (\<lambda>l. row_fields l ! 1 = row_fields l0 ! 1) ls = l1 # rest"
    and run: "\<forall>l \<in> set (takeWhile (\<lambda>l. row_fields l ! 1 = row_fields l0 ! 1) ls).
                    (if length (row_fields l0) = 3 then 2 else 3) < length (row_fields l)"
    and long: "3 < length (row_fields l1)"
    by (rule well_formed_lines)
  let ?same = "\<lambda>l. row_fields l ! 1 = row_fields l0 ! 1"
  let ?row = "if length (row_fields l0) = 3 then 2 else 3 :: nat"
  have head: "head \<noteq> []" using lines by auto
  have l: "readlines (l @ tail) = l # readlines tail"
    using readlines_line [OF assms(5), of tail] assms(3,4)
    by (metis append_butlast_last_id append_Cons append_Nil append_assoc)
  have full: "readlines (head @ l @ tail) = l0 # (ls @ l # readlines tail)"
    using readlines_append [OF head assms(2)] lines l by simp
  have short: "readlines (head @ tail) = l0 # (ls @ readlines tail)"
    using readlines_append [OF head assms(2)] lines by simp
  have l1_in: "l1 \<in> set ls" "\<not> ?same l1"
    using drop hd_dropWhile [of ?same ls] set_dropWhileD [of l1 ?same ls] by auto
  have take: "takeWhile ?same (ls @ ys) = takeWhile ?same ls" for ys
    using l1_in by (intro takeWhile_append1) auto
  have dropa: "dropWhile ?same (ls @ ys) = l1 # (rest @ ys)" for ys
    using l1_in drop by (simp add: dropWhile_append1)
  have "2 \<le> ?row" by simp
  have second: "find_second ?row (row_fields l0 ! 1) (ls @ ys) st0
      = Inr (row_fields l1 ! 1, 1, rest @ ys,
             st0\<lparr>enc_tmp := enc_tmp st0
                       @ concat (map (\<lambda>l. [SPC] @ row_fields l ! ?row) (takeWhile ?same ls)) @ [NL],
                 dec_tmp := dec_tmp st0 @ row_fields l1 ! 3,
                 total_line := total_line st0 + 1\<rparr>)" for ys st0
    using find_second_opening [where ls = "ls @ ys" and p = "row_fields l0 ! 1" and row = ?row
                                 and ?l1.0 = l1 and rest = "rest @ ys" and st = st0]
          run \<open>2 \<le> ?row\<close> long
    unfolding take dropa by simp
  have skip: "main_loop s (rest @ l # readlines tail) = main_loop s (rest @ readlines tail)" for s
    using assms(6) by (simp add: main_loop_append main_loop_Cons main_step_short)
  show ?thesis
    by (simp only: parse_tsv_lines [OF full] parse_tsv_lines [OF short] second sum.case
                   prod.case skip)
qed

section \<open>The claims\<close>

text \<open>
  Claim C1. After the loop over any list of existing, well-formed \<open>.tsv\<close> files (the
  first row has at least three fields, the rows of the first speaker's opening run have the
  column chosen from the first row, and a row of another speaker follows, with at least
  four fields), started with empty temporary files, the loop has raised no error,
  \<open>total_line\<close> is the number of exchanges of all the files, and line \<open>N\<close> of the
  temporary encoder file is the first turn and line \<open>N\<close> of the temporary decoder file
  the second turn of the \<open>N\<close>-th exchange, each ended by a newline; so both files have the
  same number of lines. The two copy loops cut both files at the same line, so the
  training files and the test files hold the two halves of the same exchanges, line by
  line.
\<close>

theorem temporary_files_aligned:
  assumes "\<forall>p \<in> set tsvs. file_exists w p \<and> well_formed_tsv (file_text w p)"
      and "ex = concat (map (\<lambda>p. exchanges (messages (file_text w p))) tsvs)"
  shows "\<exists>st w'. parse_files w tsvs init_dstate = Inr (st, w')
         \<and> total_line st = length ex
         \<and> readlines (enc_tmp st) = map (\<lambda>x. fst x @ [NL]) ex
         \<and> readlines (dec_tmp st) = map (\<lambda>x. snd x @ [NL]) ex
         \<and> length (readlines (enc_tmp st)) = length (readlines (dec_tmp st))
         \<and> readlines (fst (split_lines (split_index (total_line st)) (enc_tmp st)))
             = map (\<lambda>x. fst x @ [NL]) (take (split_index (length ex)) ex)
         \<and> readlines (fst (split_lines (split_index (total_line st)) (dec_tmp st)))
             = map (\<lambda>x. snd x @ [NL]) (take (split_index (length ex)) ex)
         \<and> readlines (snd (split_lines (split_index (total_line st)) (enc_tmp st)))
             = map (\<lambda>x. fst x @ [NL]) (drop (split_index (length ex)) ex)
         \<and> readlines (snd (split_lines (split_index (total_line st)) (dec_tmp st)))
             = map (\<lambda>x. snd x @ [NL]) (drop (split_index (length ex)) ex)"
proof -
  from parse_files_well_formed [OF assms(1), of init_dstate] obtain st w' where
    st: "parse_files w tsvs init_dstate = Inr (st, w')"
      "enc_tmp st = enc_lines ex" "dec_tmp st = dec_lines ex" "total_line st = length ex"
    unfolding assms(2) by (auto simp: init_dstate_def)
  have chars: "set (fst x) \<union> set (snd x) \<subseteq> - {NL, CR}" if "x \<in> set ex" for x
  proof -
    from that obtain p where p: "p \<in> set tsvs" "x \<in> set (exchanges (messages (file_text w p)))"
      unfolding assms(2) by auto
    then have "well_formed_tsv (file_text w p)" using assms(1) by simp
    from exchanges_chars [OF this, of "fst x" "snd x"] p(2) file_text_no_CR [of w p]
    show ?thesis by auto
  qed
  have e: "\<forall>t \<in> set (map fst ex). NL \<notin> set t \<and> CR \<notin> set t"
    using chars by fastforce
  have d: "\<forall>t \<in> set (map snd ex). NL \<notin> set t \<and> CR \<notin> set t"
    using chars by fastforce
  have le: "readlines (enc_lines ex) = map (\<lambda>x. fst x @ [NL]) ex"
    unfolding enc_lines_def using e readlines_write_lines [of "map fst ex"] by (simp add: comp_def)
  have ld: "readlines (dec_lines ex) = map (\<lambda>x. snd x @ [NL]) ex"
    unfolding dec_lines_def using d readlines_write_lines [of "map snd ex"] by (simp add: comp_def)
  have take_e: "\<forall>t \<in> set (take k (map fst ex)). NL \<notin> set t" for k
    by (meson e in_set_takeD)
  have take_d: "\<forall>t \<in> set (take k (map snd ex)). NL \<notin> set t" for k
    by (meson d in_set_takeD)
  have drop_e: "\<forall>t \<in> set (drop k (map fst ex)). NL \<notin> set t" for k
    by (meson e in_set_dropD)
  have drop_d: "\<forall>t \<in> set (drop k (map snd ex)). NL \<notin> set t" for k
    by (meson d in_set_dropD)
  have se: "split_lines k (enc_lines ex)
              = (write_lines (take k (map fst ex)), write_lines (drop k (map fst ex)))" for k
    unfolding enc_lines_def using e by (rule split_lines_write_lines)
  have sd: "split_lines k (dec_lines ex)
              = (write_lines (take k (map snd ex)), write_lines (drop k (map snd ex)))" for k
    unfolding dec_lines_def using d by (rule split_lines_write_lines)
  have "readlines (fst (split_lines k (enc_lines ex))) = map (\<lambda>x. fst x @ [NL]) (take k ex)"
       "readlines (fst (split_lines k (dec_lines ex))) = map (\<lambda>x. snd x @ [NL]) (take k ex)"
       "readlines (snd (split_lines k (enc_lines ex))) = map (\<lambda>x. fst x @ [NL]) (drop k ex)"
       "readlines (snd (split_lines k (dec_lines ex))) = map (\<lambda>x. snd x @ [NL]) (drop k ex)"
    for k
    using readlines_write_lines [OF take_e [of k]] readlines_write_lines [OF take_d [of k]]
          readlines_write_lines [OF drop_e [of k]] readlines_write_lines [OF drop_d [of k]]
    by (simp_all add: se sd take_map drop_map comp_def)
  then show ?thesis using st le ld by simp
qed

theorem temporary_files_aligned_witness:
  "file_exists two_conversations ''a.tsv''
   \<and> well_formed_tsv (file_text two_conversations ''a.tsv'')
   \<and> file_exists two_conversations ''b.tsv''
   \<and> well_formed_tsv (file_text two_conversations ''b.tsv'')
   \<and> (\<exists>st w'.
         parse_files two_conversations [''a.tsv'', ''b.tsv''] init_dstate = Inr (st, w')
         \<and> total_line st = 2
         \<and> readlines (enc_tmp st) = [''hello'' @ [NL], ''hi'' @ [NL]]
         \<and> readlines (dec_tmp st) = [''world'' @ [NL], ''yo'' @ [NL]]
         \<and> readlines (fst (split_lines (split_index (total_line st)) (enc_tmp st)))
             = [''hello'' @ [NL]]
         \<and> readlines (fst (split_lines (split_index (total_line st)) (dec_tmp st)))
             = [''world'' @ [NL]]
         \<and> readlines (snd (split_lines (split_index (total_line st)) (enc_tmp st)))
             = [''hi'' @ [NL]]
         \<and> readlines (snd (split_lines (split_index (total_line st)) (dec_tmp st)))
             = [''yo'' @ [NL]])"
proof -
  let ?w = two_conversations
  have ta: "file_text ?w ''a.tsv'' = tsv_line [''t'', ''A'', ''B'', ''hello'']
                                           @ tsv_line [''t'', ''B'', ''A'', ''world''] @ [NL]"
    by (simp add: two_conversations_def file_text_def tsv_line_def)
  have tb: "file_text ?w ''b.tsv'' = tsv_line [''t'', ''C'', ''hi'']
                                           @ tsv_line [''t'', ''D'', ''C'', ''yo'']
                                           @ tsv_line [''t'', ''C'', ''D'', ''bye'']"
    by (simp add: two_conversations_def file_text_def tsv_line_def)
  have ex: "file_exists ?w ''a.tsv''" "file_exists ?w ''b.tsv''"
    by (simp_all add: two_conversations_def file_exists_def)
  have wf: "well_formed_tsv (file_text ?w ''a.tsv'')" "well_formed_tsv (file_text ?w ''b.tsv'')"
    unfolding ta tb
    by (simp_all add: well_formed_tsv_def tsv_rows_def tsv_line_def row_fields_def)
  have h1: "\<forall>p \<in> set [''a.tsv'', ''b.tsv'']. file_exists ?w p \<and> well_formed_tsv (file_text ?w p)"
    using ex wf by simp
  have h2: "[(''hello'', ''world''), (''hi'', ''yo'')]
      = concat (map (\<lambda>p. exchanges (messages (file_text ?w p))) [''a.tsv'', ''b.tsv''])"
    by (simp add: ta tb)
       (simp add: exchanges_def turns_def messages_def tsv_rows_def tsv_line_def row_fields_def)
  from temporary_files_aligned [OF h1 h2] obtain st w' where
    run: "parse_files ?w [''a.tsv'', ''b.tsv''] init_dstate = Inr (st, w')"
    and total: "total_line st = length [(''hello'', ''world''), (''hi'', ''yo'')]"
    and enc: "readlines (enc_tmp st)
                = map (\<lambda>x. fst x @ [NL]) [(''hello'', ''world''), (''hi'', ''yo'')]"
    and dec: "readlines (dec_tmp st)
                = map (\<lambda>x. snd x @ [NL]) [(''hello'', ''world''), (''hi'', ''yo'')]"
    and train_enc: "readlines (fst (split_lines (split_index (total_line st)) (enc_tmp st)))
             = map (\<lambda>x. fst x @ [NL])
                 (take (split_index (length [(''hello'', ''world''), (''hi'', ''yo'')]))
                    [(''hello'', ''world''), (''hi'', ''yo'')])"
    and train_dec: "readlines (fst (split_lines (split_index (total_line st)) (dec_tmp st)))
             = map (\<lambda>x. snd x @ [NL])
                 (take (split_index (length [(''hello'', ''world''), (''hi'', ''yo'')]))
                    [(''hello'', ''world''), (''hi'', ''yo'')])"
    and test_enc: "readlines (snd (split_lines (split_index (total_line st)) (enc_tmp st)))
             = map (\<lambda>x. fst x @ [NL])
                 (drop (split_index (length [(''hello'', ''world''), (''hi'', ''yo'')]))
                    [(''hello'', ''world''), (''hi'', ''yo'')])"
    and test_dec: "readlines (snd (split_lines (split_index (total_line st)) (dec_tmp st)))
             = map (\<lambda>x. snd x @ [NL])
                 (drop (split_index (length [(''hello'', ''world''), (''hi'', ''yo'')]))
                    [(''hello'', ''world''), (''hi'', ''yo'')])"
    by blast
  have k: "split_index (length [(''hello'', ''world''), (''hi'', ''yo'')]) = 1"
    by (simp add: split_index_def)
  have "total_line st = 2" using total by simp
  moreover have "readlines (enc_tmp st) = [''hello'' @ [NL], ''hi'' @ [NL]]"
    using enc by simp
  moreover have "readlines (dec_tmp st) = [''world'' @ [NL], ''yo'' @ [NL]]"
    using dec by simp
  moreover have "readlines (fst (split_lines (split_index (total_line st)) (enc_tmp st)))
             = [''hello'' @ [NL]]"
    unfolding train_enc k by simp
  moreover have "readlines (fst (split_lines (split_index (total_line st)) (dec_tmp st)))
             = [''world'' @ [NL]]"
    unfolding train_dec k by simp
  moreover have "readlines (snd (split_lines (split_index (total_line st)) (enc_tmp st)))
             = [''hi'' @ [NL]]"
    unfolding test_enc k by simp
  moreover have "readlines (snd (split_lines (split_index (total_line st)) (dec_tmp st)))
             = [''yo'' @ [NL]]"
    unfolding test_dec k by simp
  ultimately show ?thesis using ex wf run by blast
qed

text \<open>
  Claim C2, amended. When the vocabulary file is written (it did not exist and the data
  file can be read) and \<open>max_vocabulary_size\<close> is at least 4, the file begins with the
  four lines \<open>_PAD\<close>, \<open>_GO\<close>, \<open>_EOS\<close>, \<open>_UNK\<close>, whatever the corpus, the tokenizer
  and the normalization flag. (With a smaller size the list is cut inside the reserved
  symbols: see the counterexample.)
\<close>

theorem create_vocabulary_reserved_lines:
  assumes "\<not> file_exists w vocabulary_path"
      and "files w data_path = Some data"
      and "4 \<le> max_vocabulary_size"
  shows "\<exists>w' content.
           create_vocabulary w vocabulary_path data_path max_vocabulary_size tokenizer
             normalize_digits = Inr w'
         \<and> files w' vocabulary_path = Some content
         \<and> take 4 (readlines content)
             = [''_PAD'' @ [NL], ''_GO'' @ [NL], ''_EOS'' @ [NL], ''_UNK'' @ [NL]]"
proof -
  obtain rest where
    "vocab_list max_vocabulary_size (corpus_words tokenizer normalize_digits data)
       = START_VOCAB @ rest"
    using vocab_list_reserved [OF assms(3)] by blast
  moreover from this have
    "vocab_list max_vocabulary_size (corpus_words tokenizer normalize_digits data) \<noteq> []"
    by (simp add: START_VOCAB_def)
  ultimately show ?thesis
    using create_vocabulary_written [OF assms(1,2)] readlines_reserved [of rest]
    by (simp add: files_write_file)
qed

theorem create_vocabulary_reserved_lines_witness:
  "\<not> file_exists \<lparr>files = [''d'' \<mapsto> ''a'' @ [NL]], io_log = []\<rparr> ''v''
   \<and> files \<lparr>files = [''d'' \<mapsto> ''a'' @ [NL]], io_log = []\<rparr> ''d'' = Some (''a'' @ [NL])
   \<and> (4::int) \<le> 5
   \<and> (\<exists>w' content.
           create_vocabulary \<lparr>files = [''d'' \<mapsto> ''a'' @ [NL]], io_log = []\<rparr> ''v'' ''d'' 5 None True
             = Inr w'
         \<and> files w' ''v'' = Some content
         \<and> take 4 (readlines content)
             = [''_PAD'' @ [NL], ''_GO'' @ [NL], ''_EOS'' @ [NL], ''_UNK'' @ [NL]])"
proof -
  have h1: "\<not> file_exists \<lparr>files = [''d'' \<mapsto> ''a'' @ [NL]], io_log = []\<rparr> ''v''"
    by (simp add: file_exists_def)
  have h2: "files \<lparr>files = [''d'' \<mapsto> ''a'' @ [NL]], io_log = []\<rparr> ''d'' = Some (''a'' @ [NL])"
    by simp
  have h3: "(4::int) \<le> 5" by simp
  show ?thesis using h1 h2 h3 create_vocabulary_reserved_lines [OF h1 h2 h3, of None True] by blast
qed

theorem create_vocabulary_reserved_lines_counterexample:
  "create_vocabulary \<lparr>files = [''d'' \<mapsto> ''a'' @ [NL]], io_log = []\<rparr> ''v'' ''d'' 2 None True
     = Inr \<lparr>files = [''d'' \<mapsto> ''a'' @ [NL], ''v'' \<mapsto> ''_PAD'' @ [NL] @ ''_GO'' @ [NL]],
            io_log = [Read ''d'', Write ''v'']\<rparr>
   \<and> take 4 (readlines (''_PAD'' @ [NL] @ ''_GO'' @ [NL]))
       \<noteq> [''_PAD'' @ [NL], ''_GO'' @ [NL], ''_EOS'' @ [NL], ''_UNK'' @ [NL]]"
  by (simp add: create_vocabulary_def file_exists_def gfile_read_def gfile_write_def
                write_file_def write_lines_def vocab_list_def START_VOCAB_def PAD_def GO_def
                EOS_def UNK_def py_slice_to_def Let_def)

text \<open>
  Claim C3, amended. When \<open>max_vocabulary_size\<close> is at least 1 and no normalized token of
  the corpus is one of the four reserved symbols (and the tokenizer is the default one, or
  its tokens hold no whitespace), \<open>create_vocabulary\<close> followed by
  \<open>initialize_vocabulary\<close> succeeds, the dictionary has
  \<open>min (distinct tokens + 4) max_vocabulary_size\<close> entries, as many as the file has lines,
  and the token on every line is mapped to the index of its line. (With size 0 nothing is
  written, no file is made and \<open>initialize_vocabulary\<close> raises.)
\<close>

theorem create_then_initialize_vocabulary:
  assumes "\<not> file_exists w vocabulary_path"
      and "files w data_path = Some data"
      and "ws = corpus_words tokenizer normalize_digits data"
      and "tokenizer = None \<or> (\<forall>t \<in> set ws. no_space t)"
      and "set ws \<inter> set START_VOCAB = {}"
      and "1 \<le> max_vocabulary_size"
  shows "\<exists>w1 content vocab rev_vocab w2.
           create_vocabulary w vocabulary_path data_path max_vocabulary_size tokenizer
             normalize_digits = Inr w1
         \<and> files w1 vocabulary_path = Some content
         \<and> initialize_vocabulary w1 vocabulary_path = Inr ((vocab, rev_vocab), w2)
         \<and> length vocab = length (readlines content)
         \<and> int (length vocab) = min (int (card (set ws)) + 4) max_vocabulary_size
         \<and> (\<forall>i < length (readlines content).
               map_of vocab (py_strip (readlines content ! i)) = Some (int i))"
proof -
  let ?vl = "vocab_list max_vocabulary_size ws"
  let ?w1 = "write_file (w\<lparr>io_log := io_log w @ [Read data_path]\<rparr>) vocabulary_path
               (write_lines ?vl)"
  let ?vocab = "py_dict (id_pairs ?vl)"
  have ns: "\<forall>t \<in> set ?vl. no_space t"
    using vocab_list_no_space [of tokenizer normalize_digits data _ max_vocabulary_size]
          assms(3,4) by blast
  then have "\<forall>t \<in> set ?vl. NL \<notin> set t" using no_space_NL by blast
  then have lines: "readlines (write_lines ?vl) = map (\<lambda>t. t @ [NL]) ?vl"
    by (rule readlines_write_lines)
  have strip: "map py_strip (readlines (write_lines ?vl)) = ?vl"
    unfolding lines using ns by (rule map_strip_lines)
  have nonempty: "?vl \<noteq> []" using assms(6) by (rule vocab_list_nonempty)
  have create: "create_vocabulary w vocabulary_path data_path max_vocabulary_size tokenizer
                  normalize_digits = Inr ?w1"
    using create_vocabulary_written [OF assms(1,2)] nonempty assms(3) by simp
  have content: "files ?w1 vocabulary_path = Some (write_lines ?vl)"
    by (rule files_write_file)
  have init: "initialize_vocabulary ?w1 vocabulary_path
                = Inr ((?vocab, ?vl), ?w1\<lparr>io_log := io_log ?w1 @ [Read vocabulary_path]\<rparr>)"
    using initialize_vocabulary_eq [OF content] strip by simp
  have dist: "distinct ?vl" using assms(5) by (rule distinct_vocab_list)
  have len: "length ?vocab = length ?vl"
    using dist by (simp add: length_py_dict fst_id_pairs distinct_card)
  have len_lines: "length (readlines (write_lines ?vl)) = length ?vl"
    by (simp add: lines)
  have size: "int (length ?vocab) = min (int (card (set ws)) + 4) max_vocabulary_size"
    using length_vocab_list_nonneg [of max_vocabulary_size ws] len assms(6) by simp
  have maps_back: "\<forall>i < length (readlines (write_lines ?vl)).
                map_of ?vocab (py_strip (readlines (write_lines ?vl) ! i)) = Some (int i)"
  proof (intro allI impI)
    fix i assume "i < length (readlines (write_lines ?vl))"
    then have i: "i < length ?vl" by (simp add: len_lines)
    then have "py_strip (readlines (write_lines ?vl) ! i) = ?vl ! i"
      using strip by (metis len_lines nth_map)
    then show "map_of ?vocab (py_strip (readlines (write_lines ?vl) ! i)) = Some (int i)"
      using map_of_py_dict_distinct [OF dist i] by simp
  qed
  show ?thesis
    using create content init len len_lines size maps_back by (metis (no_types, lifting))
qed

theorem create_then_initialize_vocabulary_witness:
  "\<not> file_exists \<lparr>files = [''d'' \<mapsto> ''a b a'' @ [NL]], io_log = []\<rparr> ''v''
   \<and> files \<lparr>files = [''d'' \<mapsto> ''a b a'' @ [NL]], io_log = []\<rparr> ''d'' = Some (''a b a'' @ [NL])
   \<and> [''a'', ''b'', ''a''] = corpus_words None True (''a b a'' @ [NL])
   \<and> set [''a'', ''b'', ''a''] \<inter> set START_VOCAB = {}
   \<and> (1::int) \<le> 10
   \<and> (\<exists>w1 content vocab rev_vocab w2.
           create_vocabulary \<lparr>files = [''d'' \<mapsto> ''a b a'' @ [NL]], io_log = []\<rparr>
             ''v'' ''d'' 10 None True = Inr w1
         \<and> files w1 ''v'' = Some content
         \<and> initialize_vocabulary w1 ''v'' = Inr ((vocab, rev_vocab), w2)
         \<and> length vocab = length (readlines content)
         \<and> int (length vocab) = min (int (card (set [''a'', ''b'', ''a''])) + 4) 10
         \<and> (\<forall>i < length (readlines content).
               map_of vocab (py_strip (readlines content ! i)) = Some (int i)))"
proof -
  have h1: "\<not> file_exists \<lparr>files = [''d'' \<mapsto> ''a b a'' @ [NL]], io_log = []\<rparr> ''v''"
    by (simp add: file_exists_def)
  have h2: "files \<lparr>files = [''d'' \<mapsto> ''a b a'' @ [NL]], io_log = []\<rparr> ''d''
              = Some (''a b a'' @ [NL])"
    by simp
  have h3: "[''a'', ''b'', ''a''] = corpus_words None True (''a b a'' @ [NL])"
    by (simp add: eval_defs)
  have h4: "None = (None :: tokenizer option) \<or> (\<forall>t \<in> set [''a'', ''b'', ''a'']. no_space t)"
    by simp
  have h5: "set [''a'', ''b'', ''a''] \<inter> set START_VOCAB = {}"
    by (simp add: START_VOCAB_def PAD_def GO_def EOS_def UNK_def)
  have h6: "(1::int) \<le> 10" by simp
  show ?thesis
    using h1 h2 h3 h5 h6 create_then_initialize_vocabulary [OF h1 h2 h3 h4 h5 h6] by blast
qed

theorem create_then_initialize_vocabulary_counterexample:
  "create_vocabulary \<lparr>files = [''d'' \<mapsto> ''_PAD'' @ [NL]], io_log = []\<rparr> ''v'' ''d'' 10 None True
     = Inr \<lparr>files = [''d'' \<mapsto> ''_PAD'' @ [NL],
                     ''v'' \<mapsto> ''_PAD'' @ [NL] @ ''_GO'' @ [NL] @ ''_EOS'' @ [NL] @ ''_UNK'' @ [NL]
                              @ ''_PAD'' @ [NL]],
            io_log = [Read ''d'', Write ''v'']\<rparr>
   \<and> initialize_vocabulary
         \<lparr>files = [''d'' \<mapsto> ''_PAD'' @ [NL],
                    ''v'' \<mapsto> ''_PAD'' @ [NL] @ ''_GO'' @ [NL] @ ''_EOS'' @ [NL] @ ''_UNK'' @ [NL]
                             @ ''_PAD'' @ [NL]],
           io_log = [Read ''d'', Write ''v'']\<rparr> ''v''
     = Inr (([(''_PAD'', 4), (''_GO'', 1), (''_EOS'', 2), (''_UNK'', 3)],
             [''_PAD'', ''_GO'', ''_EOS'', ''_UNK'', ''_PAD'']),
            \<lparr>files = [''d'' \<mapsto> ''_PAD'' @ [NL],
                       ''v'' \<mapsto> ''_PAD'' @ [NL] @ ''_GO'' @ [NL] @ ''_EOS'' @ [NL] @ ''_UNK'' @ [NL]
                                @ ''_PAD'' @ [NL]],
              io_log = [Read ''d'', Write ''v'', Read ''v'']\<rparr>)
   \<and> corpus_words None True (''_PAD'' @ [NL]) = [''_PAD'']
   \<and> int (length [(''_PAD'', 4::int), (''_GO'', 1), (''_EOS'', 2), (''_UNK'', 3)])
       \<noteq> min (int (card (set [''_PAD''])) + 4) 10
   \<and> map_of [(''_PAD'', 4::int), (''_GO'', 1), (''_EOS'', 2), (''_UNK'', 3)] ''_PAD'' \<noteq> Some 0"
  by (simp add: eval_defs initialize_vocabulary_def id_pairs_def py_dict_def enumerate_eq_zip)

text \<open>
  Claim C4, amended. The statement is about a well-formed file: the first row has at
  least three fields, the rows that continue the first speaker's opening run have the
  column chosen from the first row, and a row of another speaker follows, the first of
  which has at least four fields. In such a file the column chosen from the first row (2
  when the first row has three fields, 3 otherwise) is used for the first row and for the
  rows that continue the first speaker's opening run; the first row of the other speaker
  and every row after it are read at column 3, those after it being passed over when they
  have fewer than four fields. The file adds to the temporary files the exchanges of the
  messages read this way. When the first row does not have three fields the chosen column
  is 3, and then, in a well-formed file whose rows all have at least four fields, every
  row is read at the chosen column.
\<close>

theorem message_column_by_phase:
  assumes "well_formed_tsv text"
      and "tsv_rows text = r # rs"
      and "row = (if length r = 3 then 2 else 3)"
      and "msgs = map (\<lambda>q. (q ! 1, q ! row)) (r # takeWhile (\<lambda>q. q ! 1 = r ! 1) rs)
                  @ map (\<lambda>q. (q ! 1, q ! 3))
                        (filter (\<lambda>q. 3 < length q) (dropWhile (\<lambda>q. q ! 1 = r ! 1) rs))"
  shows "\<exists>st'. parse_tsv text st = Inr st'
         \<and> enc_tmp st' = enc_tmp st @ enc_lines (exchanges msgs)
         \<and> dec_tmp st' = dec_tmp st @ dec_lines (exchanges msgs)
         \<and> total_line st' = total_line st + length (exchanges msgs)
         \<and> (length r \<noteq> 3 \<and> (\<forall>q \<in> set rs. 3 < length q)
              \<longrightarrow> msgs = messages_fixed_column text)"
proof -
  have msgs: "msgs = messages text"
    using assms(2,3,4) by (simp add: messages_def Let_def)
  have "length r \<noteq> 3 \<and> (\<forall>q \<in> set rs. 3 < length q) \<longrightarrow> msgs = messages_fixed_column text"
  proof
    assume a: "length r \<noteq> 3 \<and> (\<forall>q \<in> set rs. 3 < length q)"
    then have "filter (\<lambda>q. 3 < length q) (dropWhile (\<lambda>q. q ! 1 = r ! 1) rs)
                 = dropWhile (\<lambda>q. q ! 1 = r ! 1) rs"
      by (auto simp: filter_id_conv dest: set_dropWhileD)
    then have "msgs = map (\<lambda>q. (q ! 1, q ! 3))
                        (r # takeWhile (\<lambda>q. q ! 1 = r ! 1) rs @ dropWhile (\<lambda>q. q ! 1 = r ! 1) rs)"
      using assms(3,4) a by (simp add: map_append [symmetric] del: map_append)
    then show "msgs = messages_fixed_column text"
      using assms(2) a by (simp add: messages_fixed_column_def)
  qed
  then show ?thesis
    using parse_tsv_well_formed [OF assms(1), of st] msgs by auto
qed

theorem message_column_by_phase_witness:
  "well_formed_tsv (tsv_line [''t'', ''A'', ''hi''] @ tsv_line [''t'', ''A'', ''x'', ''there'']
                    @ tsv_line [''t'', ''B'', ''A'', ''yo''])
   \<and> tsv_rows (tsv_line [''t'', ''A'', ''hi''] @ tsv_line [''t'', ''A'', ''x'', ''there'']
               @ tsv_line [''t'', ''B'', ''A'', ''yo''])
       = [''t'', ''A'', ''hi''] # [[''t'', ''A'', ''x'', ''there''], [''t'', ''B'', ''A'', ''yo'']]
   \<and> (2::nat) = (if length [''t'', ''A'', ''hi''] = 3 then 2 else 3)
   \<and> [(''A'', ''hi''), (''A'', ''x''), (''B'', ''yo'')]
       = map (\<lambda>q. (q ! 1, q ! 2))
           ([''t'', ''A'', ''hi'']
            # takeWhile (\<lambda>q. q ! 1 = [''t'', ''A'', ''hi''] ! 1)
                [[''t'', ''A'', ''x'', ''there''], [''t'', ''B'', ''A'', ''yo'']])
         @ map (\<lambda>q. (q ! 1, q ! 3))
             (filter (\<lambda>q. 3 < length q)
                (dropWhile (\<lambda>q. q ! 1 = [''t'', ''A'', ''hi''] ! 1)
                   [[''t'', ''A'', ''x'', ''there''], [''t'', ''B'', ''A'', ''yo'']]))
   \<and> (\<exists>st'. parse_tsv (tsv_line [''t'', ''A'', ''hi''] @ tsv_line [''t'', ''A'', ''x'', ''there'']
                          @ tsv_line [''t'', ''B'', ''A'', ''yo'']) init_dstate = Inr st'
         \<and> enc_tmp st' = enc_tmp init_dstate
               @ enc_lines (exchanges [(''A'', ''hi''), (''A'', ''x''), (''B'', ''yo'')])
         \<and> dec_tmp st' = dec_tmp init_dstate
               @ dec_lines (exchanges [(''A'', ''hi''), (''A'', ''x''), (''B'', ''yo'')])
         \<and> total_line st' = total_line init_dstate
               + length (exchanges [(''A'', ''hi''), (''A'', ''x''), (''B'', ''yo'')])
         \<and> (length [''t'', ''A'', ''hi''] \<noteq> 3
              \<and> (\<forall>q \<in> set [[''t'', ''A'', ''x'', ''there''], [''t'', ''B'', ''A'', ''yo'']].
                     3 < length q) \<longrightarrow>
               [(''A'', ''hi''), (''A'', ''x''), (''B'', ''yo'')]
                 = messages_fixed_column
                     (tsv_line [''t'', ''A'', ''hi''] @ tsv_line [''t'', ''A'', ''x'', ''there'']
                      @ tsv_line [''t'', ''B'', ''A'', ''yo''])))"
proof -
  have rows: "tsv_rows (tsv_line [''t'', ''A'', ''hi''] @ tsv_line [''t'', ''A'', ''x'', ''there'']
               @ tsv_line [''t'', ''B'', ''A'', ''yo''])
       = [''t'', ''A'', ''hi''] # [[''t'', ''A'', ''x'', ''there''], [''t'', ''B'', ''A'', ''yo'']]"
    by (simp add: tsv_rows_def tsv_line_def row_fields_def)
  have h1: "well_formed_tsv (tsv_line [''t'', ''A'', ''hi''] @ tsv_line [''t'', ''A'', ''x'', ''there'']
                    @ tsv_line [''t'', ''B'', ''A'', ''yo''])"
    unfolding well_formed_tsv_def rows by simp
  have h3: "(2::nat) = (if length [''t'', ''A'', ''hi''] = 3 then 2 else 3)" by simp
  have h4: "[(''A'', ''hi''), (''A'', ''x''), (''B'', ''yo'')]
       = map (\<lambda>q. (q ! 1, q ! 2))
           ([''t'', ''A'', ''hi'']
            # takeWhile (\<lambda>q. q ! 1 = [''t'', ''A'', ''hi''] ! 1)
                [[''t'', ''A'', ''x'', ''there''], [''t'', ''B'', ''A'', ''yo'']])
         @ map (\<lambda>q. (q ! 1, q ! 3))
             (filter (\<lambda>q. 3 < length q)
                (dropWhile (\<lambda>q. q ! 1 = [''t'', ''A'', ''hi''] ! 1)
                   [[''t'', ''A'', ''x'', ''there''], [''t'', ''B'', ''A'', ''yo'']]))"
    by simp
  show ?thesis
    using h1 rows h3 h4 message_column_by_phase [OF h1 rows h3 h4, of init_dstate] by blast
qed

theorem message_column_by_phase_counterexample:
  "parse_tsv (tsv_line [''t'', ''A'', ''hello''] @ tsv_line [''t'', ''B'', ''A'', ''world''])
       init_dstate
     = Inr \<lparr>enc_tmp = ''hello'' @ [NL], dec_tmp = ''world'' @ [NL],
            str_buffer = [], total_line = 1\<rparr>
   \<and> tsv_rows (tsv_line [''t'', ''A'', ''hello''] @ tsv_line [''t'', ''B'', ''A'', ''world''])
     = [[''t'', ''A'', ''hello''], [''t'', ''B'', ''A'', ''world'']]
   \<and> messages_fixed_column
       (tsv_line [''t'', ''A'', ''hello''] @ tsv_line [''t'', ''B'', ''A'', ''world''])
     = [(''A'', ''hello''), (''B'', ''A'')]
   \<and> dec_lines (exchanges [(''A'', ''hello''), (''B'', ''A'')]) = ''A'' @ [NL]
   \<and> ''A'' @ [NL] \<noteq> ''world'' @ [NL]"
  by (simp add: parse_defs tsv_rows_def messages_fixed_column_def dec_lines_def write_lines_def
                exchanges_def turns_def)

text \<open>
  Claim C5. The list written to the vocabulary file is the four reserved symbols followed
  by \<open>tokens\<close>, cut by the slice \<open>[:max_vocabulary_size]\<close> when that list is longer than
  \<open>max_vocabulary_size\<close> (its first \<open>max_vocabulary_size\<close> entries for a size that is not
  negative). Here \<open>tokens\<close> are the distinct normalized tokens of the corpus, each once,
  in descending order of their number of occurrences, tokens with the same number in the
  order of their first occurrence in the corpus. The file holds one line for each entry of
  the list written; when the cut leaves nothing, nothing is written and there is no file.
\<close>

theorem create_vocabulary_sorted_by_count:
  assumes "\<not> file_exists w vocabulary_path"
      and "files w data_path = Some data"
      and "ws = corpus_words tokenizer normalize_digits data"
  shows "\<exists>w' tokens written.
           create_vocabulary w vocabulary_path data_path max_vocabulary_size tokenizer
             normalize_digits = Inr w'
         \<and> written = (if int (length (START_VOCAB @ tokens)) > max_vocabulary_size
                       then py_slice_to max_vocabulary_size (START_VOCAB @ tokens)
                       else START_VOCAB @ tokens)
         \<and> files w' vocabulary_path
             = (if written = [] then None else Some (write_lines written))
         \<and> (0 \<le> max_vocabulary_size \<longrightarrow>
               py_slice_to max_vocabulary_size (START_VOCAB @ tokens)
                 = take (nat max_vocabulary_size) (START_VOCAB @ tokens))
         \<and> distinct tokens \<and> set tokens = set ws
         \<and> sorted_wrt (\<lambda>a b. count_list ws a > count_list ws b
                             \<or> (count_list ws a = count_list ws b
                                \<and> first_pos ws a < first_pos ws b)) tokens"
proof -
  let ?S = "sorted_vocab (count_vocab ws)"
  let ?vl = "if int (length (START_VOCAB @ ?S)) > max_vocabulary_size
             then py_slice_to max_vocabulary_size (START_VOCAB @ ?S)
             else START_VOCAB @ ?S"
  let ?w1 = "w\<lparr>io_log := io_log w @ [Read data_path]\<rparr>"
  let ?w' = "gfile_write ?w1 vocabulary_path (map (\<lambda>t. t @ [NL]) ?vl)"
  have vl: "vocab_list max_vocabulary_size ws = ?vl"
    by (simp add: vocab_list_def Let_def)
  have create: "create_vocabulary w vocabulary_path data_path max_vocabulary_size tokenizer
          normalize_digits = Inr ?w'"
    using create_vocabulary_eq [OF assms(1,2)] assms(3) vl by simp
  have none: "files ?w1 vocabulary_path = None"
    using assms(1) by (simp add: file_exists_def)
  have content: "files ?w' vocabulary_path = (if ?vl = [] then None else Some (write_lines ?vl))"
  proof (cases "?vl = []")
    case True
    then show ?thesis using none by (simp add: gfile_write_def)
  next
    case False
    then show ?thesis
      using gfile_write_lines [OF False, of ?w1 vocabulary_path] by (simp add: files_write_file)
  qed
  have slice: "0 \<le> max_vocabulary_size \<longrightarrow>
               py_slice_to max_vocabulary_size (START_VOCAB @ ?S)
                 = take (nat max_vocabulary_size) (START_VOCAB @ ?S)"
    by (simp add: py_slice_to_def)
  have order: "distinct ?S \<and> set ?S = set ws
         \<and> sorted_wrt (\<lambda>a b. count_list ws a > count_list ws b
                             \<or> (count_list ws a = count_list ws b
                                \<and> first_pos ws a < first_pos ws b)) ?S"
    using sorted_vocab_set [of ws] sorted_vocab_order [of ws] by simp
  show ?thesis
    using create content slice order
    by (intro exI [of _ ?w'] exI [of _ ?S] exI [of _ ?vl]) blast
qed

theorem create_vocabulary_sorted_by_count_witness:
  "\<not> file_exists \<lparr>files = [''d'' \<mapsto> ''x y y x z'' @ [NL]], io_log = []\<rparr> ''v''
   \<and> files \<lparr>files = [''d'' \<mapsto> ''x y y x z'' @ [NL]], io_log = []\<rparr> ''d''
       = Some (''x y y x z'' @ [NL])
   \<and> [''x'', ''y'', ''y'', ''x'', ''z''] = corpus_words None True (''x y y x z'' @ [NL])
   \<and> (\<exists>w' tokens written.
           create_vocabulary \<lparr>files = [''d'' \<mapsto> ''x y y x z'' @ [NL]], io_log = []\<rparr>
             ''v'' ''d'' 6 None True = Inr w'
         \<and> written = (if int (length (START_VOCAB @ tokens)) > 6
                       then py_slice_to 6 (START_VOCAB @ tokens)
                       else START_VOCAB @ tokens)
         \<and> files w' ''v'' = (if written = [] then None else Some (write_lines written))
         \<and> ((0::int) \<le> 6 \<longrightarrow>
               py_slice_to 6 (START_VOCAB @ tokens) = take (nat 6) (START_VOCAB @ tokens))
         \<and> distinct tokens \<and> set tokens = set [''x'', ''y'', ''y'', ''x'', ''z'']
         \<and> sorted_wrt (\<lambda>a b. count_list [''x'', ''y'', ''y'', ''x'', ''z''] a
                                > count_list [''x'', ''y'', ''y'', ''x'', ''z''] b
                             \<or> (count_list [''x'', ''y'', ''y'', ''x'', ''z''] a
                                  = count_list [''x'', ''y'', ''y'', ''x'', ''z''] b
                                \<and> first_pos [''x'', ''y'', ''y'', ''x'', ''z''] a
                                  < first_pos [''x'', ''y'', ''y'', ''x'', ''z''] b)) tokens)"
proof -
  have h1: "\<not> file_exists \<lparr>files = [''d'' \<mapsto> ''x y y x z'' @ [NL]], io_log = []\<rparr> ''v''"
    by (simp add: file_exists_def)
  have h2: "files \<lparr>files = [''d'' \<mapsto> ''x y y x z'' @ [NL]], io_log = []\<rparr> ''d''
              = Some (''x y y x z'' @ [NL])"
    by simp
  have h3: "[''x'', ''y'', ''y'', ''x'', ''z''] = corpus_words None True (''x y y x z'' @ [NL])"
    by (simp add: eval_defs)
  show ?thesis
    using h1 h2 h3 create_vocabulary_sorted_by_count [OF h1 h2 h3, of 6] by blast
qed

text \<open>
  Claim C6. For every sentence, vocabulary, tokenizer and normalization flag,
  \<open>sentence_to_token_ids\<close> returns as many ids as the tokenizer returns tokens;
  position \<open>i\<close> holds the id the vocabulary gives to the \<open>i\<close>-th token (digit-normalized
  when the flag is set), and the unknown id 3 when the vocabulary does not have it.
\<close>

theorem sentence_to_token_ids_positions:
  "length (sentence_to_token_ids sentence vocabulary tokenizer normalize_digits)
     = length (tokenize tokenizer sentence)
   \<and> (\<forall>i < length (tokenize tokenizer sentence).
        sentence_to_token_ids sentence vocabulary tokenizer normalize_digits ! i =
          (case map_of vocabulary
                  (if normalize_digits then digit_sub (tokenize tokenizer sentence ! i)
                   else tokenize tokenizer sentence ! i) of
             Some n \<Rightarrow> n
           | None \<Rightarrow> 3))"
  by (auto simp: sentence_to_token_ids_def tokenize_def dict_get_def UNK_ID_def Let_def
           split: option.splits)

theorem sentence_to_token_ids_positions_witness:
  "length (sentence_to_token_ids ''room 42.'' [(''room'', 7), (''00'', 9)] None True) = 3
   \<and> tokenize None ''room 42.'' = [''room'', ''42'', ''.'']
   \<and> sentence_to_token_ids ''room 42.'' [(''room'', 7), (''00'', 9)] None True = [7, 9, 3]"
  using sentence_to_token_ids_positions [of "''room 42.''" "[(''room'', 7), (''00'', 9)]" None True]
  by (simp add: sentence_to_token_ids_def tokenize_def basic_tokenizer_def py_split_def
                py_strip_def is_space_def is_punct_def digit_sub_def is_digit_def
                dict_get_def UNK_ID_def)

text \<open>
  Claim C7, amended. In the main loop over the rows of a file, the \<open>for\<close> loop entered
  once the first message of the second speaker has been read, a row with fewer than three
  fields is not an error and does not end the scan: the loop leaves its state unchanged
  and writes nothing for the row, and goes on with the rows after it, so that it gives the
  same result as on the rows without that row. Hence parsing a file with such a row after
  a well-formed beginning adds the same lines to the temporary files as parsing the file
  without the row.
\<close>

theorem short_row_skipped:
  assumes "length (row_fields l) < 3"
  shows "main_step s l = s
       \<and> main_loop s (pre @ l # post) = main_loop s (pre @ post)
       \<and> (well_formed_tsv head \<and> last head = NL
            \<and> l \<noteq> [] \<and> last l = NL \<and> NL \<notin> set (butlast l)
            \<longrightarrow> parse_tsv (head @ l @ tail) st = parse_tsv (head @ tail) st)"
  using assms parse_tsv_skips_short_row [of head l tail st]
  by (simp add: main_step_short main_loop_append main_loop_Cons)

theorem short_row_skipped_witness:
  "length (row_fields (tsv_line [''t'', ''A''])) < 3
   \<and> main_step (''A'', 1, init_dstate) (tsv_line [''t'', ''A'']) = (''A'', 1, init_dstate)
   \<and> main_loop (''A'', 1, init_dstate)
         ([tsv_line [''t'', ''A'', ''B'', ''more'']] @ tsv_line [''t'', ''A'']
          # [tsv_line [''t'', ''B'', ''A'', ''world'']])
       = main_loop (''A'', 1, init_dstate)
         ([tsv_line [''t'', ''A'', ''B'', ''more'']] @ [tsv_line [''t'', ''B'', ''A'', ''world'']])
   \<and> well_formed_tsv (tsv_line [''t'', ''A'', ''B'', ''hello''] @ tsv_line [''t'', ''B'', ''A'', ''world''])
   \<and> last (tsv_line [''t'', ''A'', ''B'', ''hello''] @ tsv_line [''t'', ''B'', ''A'', ''world'']) = NL
   \<and> parse_tsv ((tsv_line [''t'', ''A'', ''B'', ''hello''] @ tsv_line [''t'', ''B'', ''A'', ''world'']) @ tsv_line [''t'', ''A''] @ tsv_line [''t'', ''A'', ''B'', ''how''])
         init_dstate
       = parse_tsv ((tsv_line [''t'', ''A'', ''B'', ''hello''] @ tsv_line [''t'', ''B'', ''A'', ''world'']) @ tsv_line [''t'', ''A'', ''B'', ''how'']) init_dstate"
proof -
  have h: "length (row_fields (tsv_line [''t'', ''A''])) < 3"
    by (simp add: row_fields_def tsv_line_def)
  have wf: "well_formed_tsv (tsv_line [''t'', ''A'', ''B'', ''hello''] @ tsv_line [''t'', ''B'', ''A'', ''world''])"
    by (simp add: well_formed_tsv_def tsv_rows_def tsv_line_def row_fields_def)
  have nl: "last (tsv_line [''t'', ''A'', ''B'', ''hello''] @ tsv_line [''t'', ''B'', ''A'', ''world'']) = NL"
    by (simp add: tsv_line_def)
  have row: "tsv_line [''t'', ''A''] \<noteq> [] \<and> last (tsv_line [''t'', ''A'']) = NL
             \<and> NL \<notin> set (butlast (tsv_line [''t'', ''A'']))"
    by (simp add: tsv_line_def)
  show ?thesis
    using h wf nl row
      short_row_skipped [OF h, of "(''A'', 1, init_dstate)" "[tsv_line [''t'', ''A'', ''B'', ''more'']]"
                  "[tsv_line [''t'', ''B'', ''A'', ''world'']]"
                  "tsv_line [''t'', ''A'', ''B'', ''hello''] @ tsv_line [''t'', ''B'', ''A'', ''world'']"
                  "tsv_line [''t'', ''A'', ''B'', ''how'']" init_dstate]
    by blast
qed

theorem short_row_skipped_counterexample:
  "length (row_fields (tsv_line [''t'', ''A''])) < 3
   \<and> file_after (create_my_dataset interrupted_conversation ''dialogs'' [''dialogs/1/a.tsv'']
                   ''train.enc'' ''train.dec'' ''test.enc'' ''test.dec'') ''train.enc''
       = Some (''hello'' @ [NL])
   \<and> file_after (create_my_dataset interrupted_conversation ''dialogs'' [''dialogs/1/a.tsv'']
                   ''train.enc'' ''train.dec'' ''test.enc'' ''test.dec'') ''train.dec''
       = Some (''world'' @ [NL])
   \<and> file_after (create_my_dataset interrupted_conversation ''dialogs'' [''dialogs/1/a.tsv'']
                   ''train.enc'' ''train.dec'' ''test.enc'' ''test.dec'') ''test.enc''
       = Some (''how'' @ [NL])
   \<and> file_after (create_my_dataset interrupted_conversation ''dialogs'' [''dialogs/1/a.tsv'']
                   ''train.enc'' ''train.dec'' ''test.enc'' ''test.dec'') ''test.dec''
       = Some (''fine'' @ [NL])"
  by (simp add: parse_defs file_after_def create_my_dataset_def rm_one_way_conv_def
                interrupted_conversation_def file_exists_def glob_tsv_def open_read_def
                remove_file_def write_file_def flush_file_def split_lines_def split_index_def)

text \<open>
  Claim C8. Each generation step returns the world it was given, without an error, when
  its output exists: \<open>create_vocabulary\<close> when the vocabulary file exists,
  \<open>data_to_token_ids\<close> when the target file exists, \<open>create_my_dataset\<close> when both
  training files exist. The world holds the contents of all files and the list of files
  opened or removed, so nothing is read and nothing is written.
\<close>

theorem generation_steps_skip_existing:
  "(file_exists w vocabulary_path \<longrightarrow>
      create_vocabulary w vocabulary_path data_path max_vocabulary_size tokenizer normalize_digits
        = Inr w)
   \<and> (file_exists w target_path \<longrightarrow>
      data_to_token_ids w data_path target_path vocabulary_path tokenizer normalize_digits = Inr w)
   \<and> (file_exists w train_enc \<and> file_exists w train_dec \<longrightarrow>
      create_my_dataset w dialogs_path tsvs train_enc train_dec test_enc test_dec = Inr w)"
  by (simp add: create_vocabulary_def data_to_token_ids_def create_my_dataset_def)

theorem generation_steps_skip_existing_witness:
  "file_exists \<lparr>files = [''v'' \<mapsto> ''x'', ''e'' \<mapsto> ''y''], io_log = []\<rparr> ''v''
   \<and> file_exists \<lparr>files = [''v'' \<mapsto> ''x'', ''e'' \<mapsto> ''y''], io_log = []\<rparr> ''e''
   \<and> create_vocabulary \<lparr>files = [''v'' \<mapsto> ''x'', ''e'' \<mapsto> ''y''], io_log = []\<rparr>
         ''v'' ''d'' 5 None True
       = Inr \<lparr>files = [''v'' \<mapsto> ''x'', ''e'' \<mapsto> ''y''], io_log = []\<rparr>
   \<and> data_to_token_ids \<lparr>files = [''v'' \<mapsto> ''x'', ''e'' \<mapsto> ''y''], io_log = []\<rparr>
         ''d'' ''e'' ''v'' None True
       = Inr \<lparr>files = [''v'' \<mapsto> ''x'', ''e'' \<mapsto> ''y''], io_log = []\<rparr>
   \<and> create_my_dataset \<lparr>files = [''v'' \<mapsto> ''x'', ''e'' \<mapsto> ''y''], io_log = []\<rparr>
         ''dialogs'' [''dialogs/1/a.tsv''] ''v'' ''e'' ''f'' ''g''
       = Inr \<lparr>files = [''v'' \<mapsto> ''x'', ''e'' \<mapsto> ''y''], io_log = []\<rparr>"
  using generation_steps_skip_existing [of "\<lparr>files = [''v'' \<mapsto> ''x'', ''e'' \<mapsto> ''y''], io_log = []\<rparr>"
               "''v''" "''d''" 5 None True "''e''" "''v''" "''e''"
               "''dialogs''" "[''dialogs/1/a.tsv'']" "''f''" "''g''"]
  by (simp add: file_exists_def)

text \<open>
  Claim C9. When a token stands on more than one line of the vocabulary file (lines
  \<open>i < j\<close> hold the same stripped token), \<open>initialize_vocabulary\<close> succeeds, returns
  as reversed vocabulary every stripped line in file order, and maps the token to the
  largest line index \<open>k\<close> at which it occurs. The dictionary then has fewer entries than
  the file has lines, and line \<open>i\<close> is not mapped back to \<open>i\<close>.
\<close>

theorem initialize_vocabulary_duplicate_token:
  assumes "files w p = Some content"
      and "toks = map py_strip (readlines content)"
      and "i < j" and "j < length toks" and "toks ! i = toks ! j"
  shows "\<exists>vocab w' k.
           initialize_vocabulary w p = Inr ((vocab, toks), w')
         \<and> map_of vocab (toks ! i) = Some (int k)
         \<and> k < length toks \<and> toks ! k = toks ! i
         \<and> (\<forall>m < length toks. toks ! m = toks ! i \<longrightarrow> m \<le> k)
         \<and> length vocab < length (readlines content)
         \<and> map_of vocab (toks ! i) \<noteq> Some (int i)"
proof -
  let ?vocab = "py_dict (id_pairs toks)"
  have init: "initialize_vocabulary w p = Inr ((?vocab, toks), w\<lparr>io_log := io_log w @ [Read p]\<rparr>)"
    using initialize_vocabulary_eq [OF assms(1)] assms(2) by simp
  have "toks ! i \<in> set toks" using assms(3,4) by simp
  then have "toks ! i \<in> fst ` set ?vocab"
    using keys_py_dict [of "id_pairs toks"] by (simp add: fst_id_pairs)
  then obtain v where v: "map_of ?vocab (toks ! i) = Some v"
    by (metis map_of_eq_None_iff not_Some_eq)
  then obtain k where k: "v = int k" "k < length toks" "toks ! k = toks ! i"
      "\<forall>m < length toks. toks ! m = toks ! i \<longrightarrow> m \<le> k"
    using map_of_py_dict_id_pairs [of toks "toks ! i" v] by blast
  from k(4) assms(4,5) have "j \<le> k" by simp
  with assms(3) have "i \<noteq> k" by simp
  have "\<not> distinct toks"
    using assms(3,4,5) nth_eq_iff_index_eq [of toks i j] by auto
  then have "card (set toks) < length toks"
    using card_distinct [of toks] card_length [of toks] by (cases "card (set toks) = length toks") auto
  then have len: "length ?vocab < length (readlines content)"
    by (simp add: length_py_dict fst_id_pairs assms(2))
  show ?thesis
    using init v k len \<open>i \<noteq> k\<close> by auto
qed

theorem initialize_vocabulary_duplicate_token_witness:
  "files \<lparr>files = [''v'' \<mapsto> ''a'' @ [NL] @ ''b'' @ [NL] @ ''a'' @ [NL]], io_log = []\<rparr> ''v''
     = Some (''a'' @ [NL] @ ''b'' @ [NL] @ ''a'' @ [NL])
   \<and> [''a'', ''b'', ''a''] = map py_strip (readlines (''a'' @ [NL] @ ''b'' @ [NL] @ ''a'' @ [NL]))
   \<and> (0::nat) < 2 \<and> 2 < length [''a'', ''b'', ''a''] \<and> [''a'', ''b'', ''a''] ! 0 = [''a'', ''b'', ''a''] ! 2
   \<and> (\<exists>vocab w' k.
           initialize_vocabulary
             \<lparr>files = [''v'' \<mapsto> ''a'' @ [NL] @ ''b'' @ [NL] @ ''a'' @ [NL]], io_log = []\<rparr> ''v''
             = Inr ((vocab, [''a'', ''b'', ''a'']), w')
         \<and> map_of vocab ([''a'', ''b'', ''a''] ! 0) = Some (int k)
         \<and> k < length [''a'', ''b'', ''a''] \<and> [''a'', ''b'', ''a''] ! k = [''a'', ''b'', ''a''] ! 0
         \<and> (\<forall>m < length [''a'', ''b'', ''a''].
                [''a'', ''b'', ''a''] ! m = [''a'', ''b'', ''a''] ! 0 \<longrightarrow> m \<le> k)
         \<and> length vocab < length (readlines (''a'' @ [NL] @ ''b'' @ [NL] @ ''a'' @ [NL]))
         \<and> map_of vocab ([''a'', ''b'', ''a''] ! 0) \<noteq> Some (int 0))"
proof -
  have h1: "files \<lparr>files = [''v'' \<mapsto> ''a'' @ [NL] @ ''b'' @ [NL] @ ''a'' @ [NL]], io_log = []\<rparr> ''v''
     = Some (''a'' @ [NL] @ ''b'' @ [NL] @ ''a'' @ [NL])" by simp
  have h2: "[''a'', ''b'', ''a''] = map py_strip (readlines (''a'' @ [NL] @ ''b'' @ [NL] @ ''a'' @ [NL]))"
    by (simp add: py_strip_def is_space_def)
  have h3: "(0::nat) < 2" by simp
  have h4: "2 < length [''a'', ''b'', ''a'']" by simp
  have h5: "[''a'', ''b'', ''a''] ! 0 = [''a'', ''b'', ''a''] ! 2" by simp
  show ?thesis
    using h1 h2 h3 h4 h5 initialize_vocabulary_duplicate_token [OF h1 h2 h3 h4 h5] by blast
qed



end
